theory Spec2Isabelle
  imports Main
begin

section \<open>Strings, lines and the string operations the converter relies on\<close>

text \<open>
  A Python \<open>str\<close> is a sequence of Unicode code points, and \<open>str.strip()\<close> removes
  Unicode white space, not only ASCII blanks. A string is therefore modelled as the list
  of its code points (natural numbers); \<open>str\<close> turns an ASCII literal into that form.
\<close>

type_synonym pystr = "nat list"

definition str :: "string \<Rightarrow> pystr" where
  "str s = map of_char s"

definition NL :: nat where
  "NL = 10"

definition TAB :: nat where
  "TAB = 9"

definition is_space :: "nat \<Rightarrow> bool" where
  \<comment> \<open>the code points for which Python's \<open>str.isspace\<close> holds; these are what \<open>strip()\<close> removes\<close>
  "is_space c \<longleftrightarrow>
     (9 \<le> c \<and> c \<le> 13) \<or> (28 \<le> c \<and> c \<le> 32) \<or> c = 133 \<or> c = 160 \<or> c = 5760 \<or>
     (8192 \<le> c \<and> c \<le> 8202) \<or> c = 8232 \<or> c = 8233 \<or> c = 8239 \<or> c = 8287 \<or> c = 12288"

definition strip :: "pystr \<Rightarrow> pystr" where
  \<comment> \<open>\<open>s.strip()\<close>\<close>
  "strip s = rev (dropWhile is_space (rev (dropWhile is_space s)))"

definition startswith :: "pystr \<Rightarrow> pystr \<Rightarrow> bool" where
  \<comment> \<open>\<open>s.startswith(p)\<close>\<close>
  "startswith s p \<longleftrightarrow> take (length p) s = p"

fun split_nl :: "pystr \<Rightarrow> pystr list" where
  \<comment> \<open>\<open>s.split('\n')\<close>: never empty, the empty string gives one empty line\<close>
  "split_nl [] = [[]]"
| "split_nl (c # cs) =
     (if c = NL then [] # split_nl cs
      else (case split_nl cs of [] \<Rightarrow> [[c]] | l # ls \<Rightarrow> (c # l) # ls))"

fun join_nl :: "pystr list \<Rightarrow> pystr" where
  \<comment> \<open>\<open>'\n'.join(ls)\<close>\<close>
  "join_nl [] = []"
| "join_nl [l] = l"
| "join_nl (l # ls) = l @ NL # join_nl ls"

definition fence :: pystr where
  "fence = str ''```''"

definition is_fence_line :: "pystr \<Rightarrow> bool" where
  \<comment> \<open>\<open>re.match(r'^```', line.strip())\<close>\<close>
  "is_fence_line line \<longleftrightarrow> startswith (strip line) fence"

definition is_indented :: "pystr \<Rightarrow> bool" where
  \<comment> \<open>\<open>re.match(r'^(    |\t+)', line)\<close>: four spaces, or at least one tab, at the start\<close>
  "is_indented line \<longleftrightarrow> startswith line (str ''    '') \<or> startswith line [TAB]"

definition is_blank :: "pystr \<Rightarrow> bool" where
  \<comment> \<open>\<open>line.strip() == ''\<close>\<close>
  "is_blank line \<longleftrightarrow> strip line = []"

section \<open>Frontmatter detection\<close>

fun find_closing :: "pystr \<Rightarrow> nat \<Rightarrow> pystr list \<Rightarrow> nat option" where
  \<comment> \<open>\<open>for i, line in enumerate(lines[1:], 1): if line.strip() == delim: return 0, i\<close>\<close>
  "find_closing delim i [] = None"
| "find_closing delim i (line # rest) =
     (if strip line = delim then Some i else find_closing delim (Suc i) rest)"

definition frontmatter_of_lines :: "pystr list \<Rightarrow> (nat \<times> nat) option" where
  "frontmatter_of_lines lines =
     (case lines of
        [] \<Rightarrow> None
      | first # rest \<Rightarrow>
          if strip first = str ''+++'' then
            (case find_closing (str ''+++'') 1 rest of Some i \<Rightarrow> Some (0, i) | None \<Rightarrow> None)
          else if strip first = str ''---'' then
            (case find_closing (str ''---'') 1 rest of Some i \<Rightarrow> Some (0, i) | None \<Rightarrow> None)
          else None)"

definition detect_frontmatter_boundaries :: "pystr \<Rightarrow> (nat \<times> nat) option" where
  \<comment> \<open>\<open>None\<close> stands for the pair \<open>(None, None)\<close> of the source\<close>
  "detect_frontmatter_boundaries content = frontmatter_of_lines (split_nl content)"

section \<open>The block scanner\<close>

type_synonym code_block = "nat \<times> nat \<times> pystr"

record scan_state =
  code_blocks :: "code_block list"
  current_block_start :: "nat option"
  current_block_lines :: "pystr list"
  in_fenced_block :: bool

definition initial_state :: scan_state where
  "initial_state =
     \<lparr>code_blocks = [], current_block_start = None, current_block_lines = [],
      in_fenced_block = False\<rparr>"

fun pop_trailing_blank :: "pystr list \<Rightarrow> pystr list" where
  \<comment> \<open>\<open>while current_block_lines and current_block_lines[-1].strip() == '': pop()\<close>\<close>
  "pop_trailing_blank ls =
     (if ls = [] then []
      else if is_blank (last ls) then pop_trailing_blank (butlast ls)
      else ls)"

declare pop_trailing_blank.simps [simp del]

definition close_block :: "scan_state \<Rightarrow> scan_state" where
  \<comment> \<open>the body of \<open>if current_block_start is not None\<close> on a line that ends a block, and
      after the loop: trim trailing blank lines, emit the block if any line is left\<close>
  "close_block st =
     (case current_block_start st of
        None \<Rightarrow> st
      | Some start \<Rightarrow>
          (let ls = pop_trailing_blank (current_block_lines st) in
           if ls \<noteq> []
           then st\<lparr>code_blocks := code_blocks st @ [(start, start + length ls - 1, join_nl ls)]\<rparr>
           else st))"

definition in_frontmatter :: "(nat \<times> nat) option \<Rightarrow> nat \<Rightarrow> bool" where
  \<comment> \<open>\<open>frontmatter_start is not None and frontmatter_start <= i <= frontmatter_end\<close>\<close>
  "in_frontmatter fm i =
     (case fm of None \<Rightarrow> False | Some (fm_start, fm_end) \<Rightarrow> fm_start \<le> i \<and> i \<le> fm_end)"

definition scan_line :: "(nat \<times> nat) option \<Rightarrow> scan_state \<Rightarrow> nat \<times> pystr \<Rightarrow> scan_state" where
  \<comment> \<open>one iteration of \<open>for i, line in enumerate(lines)\<close>\<close>
  "scan_line fm st il =
     (case il of (i, line) \<Rightarrow>
        if in_frontmatter fm i then st
        else if is_fence_line line then
          (if current_block_start st \<noteq> None
           then st\<lparr>in_fenced_block := \<not> in_fenced_block st,
                   current_block_start := None, current_block_lines := []\<rparr>
           else st\<lparr>in_fenced_block := \<not> in_fenced_block st\<rparr>)
        else if in_fenced_block st then st
        else if is_indented line \<or> (is_blank line \<and> current_block_start st \<noteq> None) then
          (case current_block_start st of
             None \<Rightarrow> st\<lparr>current_block_start := Some i, current_block_lines := [line]\<rparr>
           | Some _ \<Rightarrow> st\<lparr>current_block_lines := current_block_lines st @ [line]\<rparr>)
        else
          (if current_block_start st \<noteq> None
           then (close_block st)\<lparr>current_block_start := None, current_block_lines := []\<rparr>
           else st))"

definition scan_lines :: "(nat \<times> nat) option \<Rightarrow> pystr list \<Rightarrow> scan_state" where
  "scan_lines fm lines = foldl (scan_line fm) initial_state (enumerate 0 lines)"

definition finish :: "scan_state \<Rightarrow> code_block list" where
  \<comment> \<open>\<open>if current_block_start is not None and not in_fenced_block: ...; return code_blocks\<close>\<close>
  "finish st =
     (if current_block_start st \<noteq> None \<and> \<not> in_fenced_block st
      then code_blocks (close_block st)
      else code_blocks st)"

definition detect_indented_code_blocks :: "pystr \<Rightarrow> code_block list" where
  "detect_indented_code_blocks content =
     finish (scan_lines (detect_frontmatter_boundaries content) (split_nl content))"

section \<open>Unindenting and rewriting\<close>

definition unindent_line :: "pystr \<Rightarrow> pystr" where
  "unindent_line line =
     (if startswith line (str ''    '') then drop 4 line
      else if startswith line [TAB] then drop 1 line
      else line)"

definition unindent_code :: "pystr \<Rightarrow> pystr" where
  "unindent_code code_content = join_nl (map unindent_line (split_nl code_content))"

definition fenced_block :: "pystr \<Rightarrow> pystr list" where
  \<comment> \<open>\<open>['```'] + unindented_code.split('\n') + ['```']\<close>\<close>
  "fenced_block code_content = [fence] @ split_nl (unindent_code code_content) @ [fence]"

definition assign_slice :: "'a list \<Rightarrow> nat \<Rightarrow> nat \<Rightarrow> 'a list \<Rightarrow> 'a list" where
  \<comment> \<open>\<open>lines[a:b] = xs\<close> for non-negative \<open>a\<close>, \<open>b\<close>: both bounds are clipped to the length,
      and an upper bound below the lower one counts as the lower one\<close>
  "assign_slice lines a b xs = take a lines @ xs @ drop (max a b) lines"

definition replace_block :: "pystr list \<Rightarrow> code_block \<Rightarrow> pystr list" where
  "replace_block lines blk =
     (case blk of (start_line, end_line, code_content) \<Rightarrow>
        assign_slice lines start_line (end_line + 1) (fenced_block code_content))"

definition convert_to_fenced_blocks :: "pystr \<Rightarrow> pystr" where
  "convert_to_fenced_blocks content =
     (let lines = split_nl content;
          code_blocks = detect_indented_code_blocks content
      in if code_blocks = [] then content
         else join_nl (foldl replace_block lines (rev code_blocks)))"

section \<open>A recursive view of the scanner and of the rewriter\<close>

text \<open>
  The loop of \<open>detect_indented_code_blocks\<close> only ever is in one of three situations:
  outside any block, inside a fenced block, or accumulating an indented block that
  started at some line. The functions below replay the loop over these three modes, and
  rebuild the output front to back; they are proved equal to the definitions above and
  serve the proofs only.
\<close>

datatype mode = Plain | Fenced | Block nat "pystr list"

definition mode_of :: "scan_state \<Rightarrow> mode" where
  "mode_of st =
     (if in_fenced_block st then Fenced
      else (case current_block_start st of
              None \<Rightarrow> Plain
            | Some start \<Rightarrow> Block start (current_block_lines st)))"

definition emit :: "nat \<Rightarrow> pystr list \<Rightarrow> code_block list" where
  "emit start buf =
     (let ls = pop_trailing_blank buf in
      if ls \<noteq> [] then [(start, start + length ls - 1, join_nl ls)] else [])"

definition next_mode :: "nat \<Rightarrow> mode \<Rightarrow> pystr \<Rightarrow> mode" where
  "next_mode i m l =
     (if is_fence_line l then (if m = Fenced then Plain else Fenced)
      else (case m of
              Fenced \<Rightarrow> Fenced
            | Plain \<Rightarrow> if is_indented l then Block i [l] else Plain
            | Block start buf \<Rightarrow>
                if is_indented l \<or> is_blank l then Block start (buf @ [l]) else Plain))"

definition emitted_by :: "mode \<Rightarrow> pystr \<Rightarrow> code_block list" where
  "emitted_by m l =
     (case m of
        Block start buf \<Rightarrow>
          if is_fence_line l \<or> is_indented l \<or> is_blank l then [] else emit start buf
      | _ \<Rightarrow> [])"

definition flush :: "mode \<Rightarrow> code_block list" where
  "flush m = (case m of Block start buf \<Rightarrow> emit start buf | _ \<Rightarrow> [])"

fun mode_after :: "nat \<Rightarrow> mode \<Rightarrow> pystr list \<Rightarrow> mode" where
  "mode_after i m [] = m"
| "mode_after i m (l # ls) = mode_after (Suc i) (next_mode i m l) ls"

fun blocks_from :: "nat \<Rightarrow> mode \<Rightarrow> pystr list \<Rightarrow> code_block list" where
  "blocks_from i m [] = flush m"
| "blocks_from i m (l # ls) = emitted_by m l @ blocks_from (Suc i) (next_mode i m l) ls"

definition wf_mode :: "nat \<Rightarrow> mode \<Rightarrow> bool" where
  \<comment> \<open>an open block holds the lines from its start up to the current line\<close>
  "wf_mode i m = (case m of Block start buf \<Rightarrow> start + length buf = i | _ \<Rightarrow> True)"

definition pending :: "mode \<Rightarrow> pystr list" where
  "pending m = (case m of Block start buf \<Rightarrow> buf | _ \<Rightarrow> [])"

definition rewrite_buf :: "pystr list \<Rightarrow> pystr list" where
  \<comment> \<open>what becomes of the lines of a block that is closed\<close>
  "rewrite_buf buf =
     (let ls = pop_trailing_blank buf in
      if ls \<noteq> [] then [fence] @ map unindent_line ls @ [fence] @ drop (length ls) buf
      else buf)"

definition written_by :: "mode \<Rightarrow> pystr \<Rightarrow> pystr list" where
  \<comment> \<open>the output lines that are settled once line \<open>l\<close> has been read in mode \<open>m\<close>\<close>
  "written_by m l =
     (if is_fence_line l then pending m @ [l]
      else (case m of
              Fenced \<Rightarrow> [l]
            | Plain \<Rightarrow> if is_indented l then [] else [l]
            | Block start buf \<Rightarrow>
                if is_indented l \<or> is_blank l then [] else rewrite_buf buf @ [l]))"

fun rewrite_from :: "nat \<Rightarrow> mode \<Rightarrow> pystr list \<Rightarrow> pystr list" where
  "rewrite_from i m [] = (case m of Block start buf \<Rightarrow> rewrite_buf buf | _ \<Rightarrow> [])"
| "rewrite_from i m (l # ls) = written_by m l @ rewrite_from (Suc i) (next_mode i m l) ls"

definition skip_of :: "(nat \<times> nat) option \<Rightarrow> nat" where
  \<comment> \<open>the number of leading lines the scanner passes over as frontmatter\<close>
  "skip_of fm = (case fm of None \<Rightarrow> 0 | Some (fm_start, fm_end) \<Rightarrow> Suc fm_end)"

definition lower :: "nat \<Rightarrow> mode \<Rightarrow> nat" where
  \<comment> \<open>the first line a block found from here on can start at\<close>
  "lower i m = (case m of Block start buf \<Rightarrow> start | _ \<Rightarrow> i)"

definition tracks :: "pystr list \<Rightarrow> nat \<Rightarrow> mode \<Rightarrow> bool" where
  \<comment> \<open>mode \<open>m\<close> fits the document \<open>L\<close> read up to line \<open>i\<close>: an open block holds
      the lines from its start to line \<open>i\<close>, its first line is indented, and all its
      lines are indented or blank and none is a fence line\<close>
  "tracks L i m \<longleftrightarrow>
     i \<le> length L \<and>
     (case m of
        Block start buf \<Rightarrow>
          start < i \<and> buf = take (i - start) (drop start L) \<and> is_indented (L ! start) \<and>
          (\<forall>j. start \<le> j \<and> j < i \<longrightarrow>
             \<not> is_fence_line (L ! j) \<and> (is_indented (L ! j) \<or> is_blank (L ! j)))
      | _ \<Rightarrow> True)"

definition apply_blocks :: "code_block list \<Rightarrow> pystr list \<Rightarrow> pystr list" where
  \<comment> \<open>the loop \<open>for ... in reversed(code_blocks)\<close>: the last block is replaced first\<close>
  "apply_blocks bs lines = foldr (\<lambda>b acc. replace_block acc b) bs lines"

definition state_before :: "pystr \<Rightarrow> nat \<Rightarrow> scan_state" where
  \<comment> \<open>the state of the loop of \<open>detect_indented_code_blocks\<close> when it reaches line \<open>i\<close>,
      that is after the iterations for the lines before \<open>i\<close>\<close>
  "state_before content i =
     foldl (scan_line (detect_frontmatter_boundaries content)) initial_state
       (take i (enumerate 0 (split_nl content)))"

definition fitting :: "pystr list \<Rightarrow> code_block \<Rightarrow> bool" where
  \<comment> \<open>a block that lies inside the document \<open>L\<close> and whose content is the lines of its span\<close>
  "fitting L blk =
     (case blk of (a, b, c) \<Rightarrow>
        a \<le> b \<and> b < length L \<and>
        fenced_block c = [fence] @ map unindent_line (take (Suc b - a) (drop a L)) @ [fence])"

definition quiet :: "mode \<Rightarrow> bool" where
  \<comment> \<open>outside a fence, with at most blank lines accumulated: closing such a block emits nothing\<close>
  "quiet m = (case m of Plain \<Rightarrow> True | Fenced \<Rightarrow> False
              | Block start buf \<Rightarrow> \<forall>l\<in>set buf. is_blank l)"

definition okbuf :: "mode \<Rightarrow> bool" where
  \<comment> \<open>the lines of an open block are indented or blank, and none is a fence line\<close>
  "okbuf m = (case m of
                Block start buf \<Rightarrow>
                  \<forall>l\<in>set buf. \<not> is_fence_line l \<and> (is_indented l \<or> is_blank l)
              | _ \<Rightarrow> True)"

definition shaped :: "pystr \<Rightarrow> pystr list \<Rightarrow> pystr list \<Rightarrow> bool" where
  \<comment> \<open>\<open>out\<close> starts with a fence, or with \<open>x\<close> followed by lines that strip to what the
      lines of \<open>rest\<close> strip to, or to a fence\<close>
  "shaped x rest out \<longleftrightarrow>
     (\<exists>T. out = fence # T) \<or>
     (\<exists>T. out = x # T \<and> strip ` set T \<subseteq> strip ` set rest \<union> {fence})"

definition wf_state :: "scan_state \<Rightarrow> bool" where
  \<comment> \<open>no block is being accumulated while the fence state is true\<close>
  "wf_state st \<longleftrightarrow> (in_fenced_block st \<longrightarrow> current_block_start st = None)"

definition fm_ok :: "(nat \<times> nat) option \<Rightarrow> bool" where
  \<comment> \<open>a frontmatter range, when there is one, starts at line 0\<close>
  "fm_ok fm = (case fm of None \<Rightarrow> True | Some (a, b) \<Rightarrow> a = 0)"

section \<open>Facts about lines and strings\<close>

lemma split_nl_not_Nil [simp]: "split_nl s \<noteq> []"
  by (induction s) (auto split: list.splits)

lemma split_nl_no_NL: "NL \<notin> set l \<Longrightarrow> split_nl l = [l]"
  by (induction l) auto

lemma split_nl_line: "NL \<notin> set l \<Longrightarrow> split_nl (l @ NL # r) = l # split_nl r"
  by (induction l) (auto split: list.splits)

lemma join_split_nl [simp]: "join_nl (split_nl s) = s"
proof (induction s)
  case Nil
  then show ?case by simp
next
  case (Cons c cs)
  obtain l ls where sp: "split_nl cs = l # ls"
    by (cases "split_nl cs") auto
  with Cons show ?case by (cases ls) auto
qed

lemma split_join_nl:
  "ls \<noteq> [] \<Longrightarrow> \<forall>l\<in>set ls. NL \<notin> set l \<Longrightarrow> split_nl (join_nl ls) = ls"
proof (induction ls rule: join_nl.induct)
  case 1
  then show ?case by simp
next
  case (2 l)
  then show ?case by (simp add: split_nl_no_NL)
next
  case (3 l v va)
  then show ?case by (simp add: split_nl_line)
qed

lemma split_nl_lines_no_NL: "l \<in> set (split_nl s) \<Longrightarrow> NL \<notin> set l"
proof (induction s arbitrary: l)
  case Nil
  then show ?case by simp
next
  case (Cons c cs)
  then show ?case by (auto split: if_splits list.splits)
qed

lemma fence_eq: "fence = [96, 96, 96]"
  by (simp add: fence_def str_def)

lemma str_spaces: "str ''    '' = [32, 32, 32, 32]"
  by (simp add: str_def)

lemma str_plus: "str ''+++'' = [43, 43, 43]"
  by (simp add: str_def)

lemma str_minus: "str ''---'' = [45, 45, 45]"
  by (simp add: str_def)

lemma is_space_32 [simp]: "is_space 32" and is_space_TAB [simp]: "is_space TAB"
  and not_space_96 [simp]: "\<not> is_space 96"
  by (simp_all add: is_space_def TAB_def)

lemma strip_Nil [simp]: "strip [] = []"
  by (simp add: strip_def)

lemma strip_space_Cons [simp]: "is_space c \<Longrightarrow> strip (c # s) = strip s"
  by (simp add: strip_def)

lemma strip_fence [simp]: "strip fence = fence"
  by (simp add: strip_def fence_eq)

lemma startswith_decomp: "startswith l p \<Longrightarrow> l = p @ drop (length p) l"
  by (metis append_take_drop_id startswith_def)

lemma strip_spaces_append [simp]: "\<forall>c\<in>set p. is_space c \<Longrightarrow> strip (p @ s) = strip s"
  by (induction p) auto

lemma strip_unindent_line [simp]: "strip (unindent_line l) = strip l"
proof -
  have a: "strip (drop 4 l) = strip l" if "startswith l (str ''    '')"
  proof -
    have "length (str ''    '') = 4" by (simp add: str_def)
    then have "l = str ''    '' @ drop 4 l"
      using startswith_decomp [OF that] by simp
    then have "strip l = strip (str ''    '' @ drop 4 l)" by simp
    also have "\<dots> = strip (drop 4 l)"
      by (rule strip_spaces_append) (simp add: str_spaces)
    finally show ?thesis by simp
  qed
  have b: "strip (drop 1 l) = strip l" if "startswith l [TAB]"
  proof -
    have "l = [TAB] @ drop 1 l"
      using startswith_decomp [OF that] by simp
    then have "strip l = strip ([TAB] @ drop 1 l)" by simp
    also have "\<dots> = strip (drop 1 l)" by (rule strip_spaces_append) simp
    finally show ?thesis by simp
  qed
  show ?thesis
    unfolding unindent_line_def using a b by simp
qed

lemma is_fence_line_unindent [simp]: "is_fence_line (unindent_line l) = is_fence_line l"
  by (simp add: is_fence_line_def)

lemma is_fence_line_fence [simp]: "is_fence_line fence"
  by (simp add: is_fence_line_def startswith_def)

lemma blank_not_fence: "is_blank l \<Longrightarrow> \<not> is_fence_line l"
  by (simp add: is_blank_def is_fence_line_def startswith_def fence_eq)

lemma is_blank_unindent [simp]: "is_blank (unindent_line l) = is_blank l"
  by (simp add: is_blank_def)

lemma pop_trailing_blank_eq: "pop_trailing_blank ls = rev (dropWhile is_blank (rev ls))"
proof (induction ls rule: rev_induct)
  case Nil
  then show ?case by (simp add: pop_trailing_blank.simps)
next
  case (snoc x xs)
  then show ?case by (subst pop_trailing_blank.simps) simp
qed

lemma pop_trailing_blank_decomp:
  "\<exists>rest. ls = pop_trailing_blank ls @ rest \<and> (\<forall>l\<in>set rest. is_blank l)"
proof -
  have "rev ls = takeWhile is_blank (rev ls) @ dropWhile is_blank (rev ls)" by simp
  then have "ls = rev (dropWhile is_blank (rev ls)) @ rev (takeWhile is_blank (rev ls))"
    by (metis rev_append rev_rev_ident)
  moreover have "\<forall>l\<in>set (rev (takeWhile is_blank (rev ls))). is_blank l"
    by (auto dest: set_takeWhileD)
  ultimately show ?thesis unfolding pop_trailing_blank_eq by blast
qed

lemma pop_trailing_blank_last:
  "pop_trailing_blank ls \<noteq> [] \<Longrightarrow> \<not> is_blank (last (pop_trailing_blank ls))"
  unfolding pop_trailing_blank_eq
  by (metis (full_types) dropWhile_eq_Nil_conv hd_dropWhile hd_rev rev.simps(1) rev_rev_ident set_rev rev_is_Nil_conv)

section \<open>The scanner as a recursion over modes\<close>

lemma close_block_blocks:
  "current_block_start st = Some s \<Longrightarrow>
   code_blocks (close_block st) = code_blocks st @ emit s (current_block_lines st)"
  by (simp add: close_block_def emit_def Let_def)

lemma scan_line_mode:
  "wf_state st \<Longrightarrow> mode_of (scan_line None st (i, l)) = next_mode i (mode_of st) l"
  by (auto simp: wf_state_def scan_line_def mode_of_def next_mode_def in_frontmatter_def
      close_block_def Let_def split: option.splits)

lemma scan_line_blocks:
  "wf_state st \<Longrightarrow>
   code_blocks (scan_line None st (i, l)) = code_blocks st @ emitted_by (mode_of st) l"
  by (auto simp: wf_state_def scan_line_def mode_of_def emitted_by_def in_frontmatter_def
      close_block_blocks split: option.splits)

lemma scan_line_wf: "wf_state st \<Longrightarrow> wf_state (scan_line None st (i, l))"
  by (auto simp: wf_state_def scan_line_def in_frontmatter_def close_block_def Let_def
      split: option.splits)

lemma finish_flush: "wf_state st \<Longrightarrow> finish st = code_blocks st @ flush (mode_of st)"
  by (auto simp: wf_state_def finish_def flush_def mode_of_def close_block_blocks
      split: option.splits)

lemma scan_fold_wf:
  "wf_state st \<Longrightarrow> wf_state (foldl (scan_line None) st (enumerate i ls))"
  by (induction ls arbitrary: i st) (simp_all add: scan_line_wf)

lemma scan_fold_mode:
  "wf_state st \<Longrightarrow>
   mode_of (foldl (scan_line None) st (enumerate i ls)) = mode_after i (mode_of st) ls"
  by (induction ls arbitrary: i st) (simp_all add: scan_line_wf scan_line_mode)

lemma scan_fold_blocks:
  "wf_state st \<Longrightarrow>
   finish (foldl (scan_line None) st (enumerate i ls)) =
     code_blocks st @ blocks_from i (mode_of st) ls"
  by (induction ls arbitrary: i st)
    (simp_all add: finish_flush scan_line_wf scan_line_mode scan_line_blocks)

lemma wf_initial: "wf_state initial_state" and mode_initial: "mode_of initial_state = Plain"
  and blocks_initial: "code_blocks initial_state = []"
  by (simp_all add: wf_state_def initial_state_def mode_of_def)

text \<open>Lines of the frontmatter leave the state alone, and the check is idle after them.\<close>

lemma scan_fold_skip:
  "i + length ls \<le> Suc fe \<Longrightarrow> foldl (scan_line (Some (0, fe))) st (enumerate i ls) = st"
  by (induction ls arbitrary: i) (simp_all add: scan_line_def in_frontmatter_def)

lemma scan_fold_past:
  "fe < i \<Longrightarrow>
   foldl (scan_line (Some (0, fe))) st (enumerate i ls) = foldl (scan_line None) st (enumerate i ls)"
  by (induction ls arbitrary: i st) (simp_all add: scan_line_def in_frontmatter_def)

lemma scan_fold_frontmatter:
  assumes "fm_ok fm"
  shows "foldl (scan_line fm) st (enumerate 0 ls) =
         foldl (scan_line None) st (enumerate (skip_of fm) (drop (skip_of fm) ls))"
proof (cases fm)
  case None
  then show ?thesis by (simp add: skip_of_def)
next
  case (Some p)
  then obtain fe where fm: "fm = Some (0, fe)"
    using assms by (cases p) (simp add: fm_ok_def)
  have "enumerate 0 ls = enumerate 0 (take (Suc fe) ls @ drop (Suc fe) ls)" by simp
  also have "\<dots> = enumerate 0 (take (Suc fe) ls) @
      enumerate (length (take (Suc fe) ls)) (drop (Suc fe) ls)"
    by (simp only: enumerate_append_eq add_0)
  finally have e: "enumerate 0 ls = enumerate 0 (take (Suc fe) ls) @
      enumerate (length (take (Suc fe) ls)) (drop (Suc fe) ls)" .
  show ?thesis
  proof (cases "Suc fe \<le> length ls")
    case True
    then have "length (take (Suc fe) ls) = Suc fe" by simp
    with e show ?thesis
      by (simp add: fm skip_of_def scan_fold_skip scan_fold_past)
  next
    case False
    then show ?thesis
      by (simp add: fm skip_of_def scan_fold_skip)
  qed
qed

lemma detect_blocks_from:
  "detect_indented_code_blocks content =
     (let lines = split_nl content; k = skip_of (detect_frontmatter_boundaries content)
      in blocks_from k Plain (drop k lines))"
proof -
  have ok: "fm_ok (detect_frontmatter_boundaries content)"
    by (auto simp: fm_ok_def detect_frontmatter_boundaries_def frontmatter_of_lines_def
        split: list.splits option.splits if_splits)
  show ?thesis
    unfolding detect_indented_code_blocks_def scan_lines_def Let_def
    by (simp add: scan_fold_frontmatter [OF ok] scan_fold_blocks wf_initial mode_initial
        blocks_initial)
qed

section \<open>Facts about frontmatter detection and unindenting\<close>

lemma find_closing_SomeD:
  "find_closing d i rest = Some k \<Longrightarrow>
   \<exists>n. k = i + n \<and> n < length rest \<and> strip (rest ! n) = d \<and>
       (\<forall>j<n. strip (rest ! j) \<noteq> d)"
proof (induction rest arbitrary: i)
  case Nil
  then show ?case by simp
next
  case (Cons line rest)
  show ?case
  proof (cases "strip line = d")
    case True
    with Cons.prems have "k = i" by simp
    with True show ?thesis by (intro exI [of _ 0]) simp
  next
    case False
    with Cons.prems have "find_closing d (Suc i) rest = Some k" by simp
    from Cons.IH [OF this] obtain n where n: "k = Suc i + n" "n < length rest"
      "strip (rest ! n) = d" "\<forall>j<n. strip (rest ! j) \<noteq> d" by blast
    have "\<forall>j<Suc n. strip ((line # rest) ! j) \<noteq> d"
    proof (intro allI impI)
      fix j assume "j < Suc n"
      then show "strip ((line # rest) ! j) \<noteq> d"
        using False n(4) by (cases j) simp_all
    qed
    with n show ?thesis by (intro exI [of _ "Suc n"]) simp
  qed
qed

lemma find_closing_SomeI:
  "n < length rest \<Longrightarrow> strip (rest ! n) = d \<Longrightarrow> \<forall>j<n. strip (rest ! j) \<noteq> d \<Longrightarrow>
   find_closing d i rest = Some (i + n)"
proof (induction rest arbitrary: i n)
  case Nil
  then show ?case by simp
next
  case (Cons line rest)
  show ?case
  proof (cases n)
    case 0
    with Cons.prems show ?thesis by simp
  next
    case (Suc n')
    with Cons.prems have ne: "strip line \<noteq> d" by auto
    have "\<forall>j<n'. strip (rest ! j) \<noteq> d"
    proof (intro allI impI)
      fix j assume "j < n'"
      then have "Suc j < n" using Suc by simp
      with Cons.prems(3) have "strip ((line # rest) ! Suc j) \<noteq> d" by blast
      then show "strip (rest ! j) \<noteq> d" by simp
    qed
    moreover from Cons.prems Suc have "n' < length rest" "strip (rest ! n') = d" by simp_all
    ultimately have "find_closing d (Suc i) rest = Some (Suc i + n')"
      by (rule Cons.IH [rotated 2])
    with ne Suc show ?thesis by simp
  qed
qed

lemma find_closing_None_iff:
  "find_closing d i rest = None \<longleftrightarrow> (\<forall>l\<in>set rest. strip l \<noteq> d)"
  by (induction rest arbitrary: i) auto

lemma unindent_line_no_NL: "NL \<notin> set l \<Longrightarrow> NL \<notin> set (unindent_line l)"
  by (auto simp: unindent_line_def dest: in_set_dropD)

lemma split_unindent_code:
  "split_nl (unindent_code s) = map unindent_line (split_nl s)"
  unfolding unindent_code_def
  by (rule split_join_nl) (auto dest: split_nl_lines_no_NL unindent_line_no_NL)

lemma str_plus_minus: "str ''+++'' \<noteq> str ''---''"
  by (simp add: str_def)

lemma frontmatter_of_lines_iff:
  "frontmatter_of_lines (first # rest) = Some (a, b) \<longleftrightarrow>
     a = 0 \<and> (strip first = str ''+++'' \<or> strip first = str ''---'') \<and>
     (\<exists>n. b = Suc n \<and> n < length rest \<and> strip (rest ! n) = strip first \<and>
          (\<forall>j<n. strip (rest ! j) \<noteq> strip first))"
proof -
  have key: "find_closing d 1 rest = Some b \<longleftrightarrow>
      (\<exists>n. b = Suc n \<and> n < length rest \<and> strip (rest ! n) = d \<and>
           (\<forall>j<n. strip (rest ! j) \<noteq> d))" for d
  proof
    assume "find_closing d 1 rest = Some b"
    from find_closing_SomeD [OF this] show
      "\<exists>n. b = Suc n \<and> n < length rest \<and> strip (rest ! n) = d \<and>
           (\<forall>j<n. strip (rest ! j) \<noteq> d)" by simp
  next
    assume "\<exists>n. b = Suc n \<and> n < length rest \<and> strip (rest ! n) = d \<and>
           (\<forall>j<n. strip (rest ! j) \<noteq> d)"
    then obtain n where "b = Suc n" "n < length rest" "strip (rest ! n) = d"
      "\<forall>j<n. strip (rest ! j) \<noteq> d" by blast
    then show "find_closing d 1 rest = Some b"
      using find_closing_SomeI [of n rest d 1] by simp
  qed
  consider (plus) "strip first = str ''+++''"
    | (minus) "strip first \<noteq> str ''+++''" "strip first = str ''---''"
    | (other) "strip first \<noteq> str ''+++''" "strip first \<noteq> str ''---''" by blast
  then show ?thesis
  proof cases
    case plus
    then have "frontmatter_of_lines (first # rest) = Some (a, b) \<longleftrightarrow>
        a = 0 \<and> find_closing (str ''+++'') 1 rest = Some b"
      by (auto simp: frontmatter_of_lines_def split: option.splits)
    then show ?thesis using plus key [of "str ''+++''"] by simp
  next
    case minus
    then have "frontmatter_of_lines (first # rest) = Some (a, b) \<longleftrightarrow>
        a = 0 \<and> find_closing (str ''---'') 1 rest = Some b"
      by (auto simp: frontmatter_of_lines_def split: option.splits)
    then show ?thesis using minus key [of "str ''---''"] by simp
  next
    case other
    then show ?thesis by (simp add: frontmatter_of_lines_def)
  qed
qed

lemma unindent_line_cases:
  "(startswith l (str ''    '') \<longrightarrow> l = str ''    '' @ unindent_line l) \<and>
   (\<not> startswith l (str ''    '') \<and> startswith l [TAB] \<longrightarrow> l = TAB # unindent_line l) \<and>
   (\<not> startswith l (str ''    '') \<and> \<not> startswith l [TAB] \<longrightarrow> unindent_line l = l)"
proof -
  have "length (str ''    '') = 4" by (simp add: str_def)
  then have "l = str ''    '' @ drop 4 l" if "startswith l (str ''    '')"
    using startswith_decomp [OF that] by simp
  moreover have "l = TAB # drop 1 l" if "startswith l [TAB]"
    using startswith_decomp [OF that] by simp
  ultimately show ?thesis by (auto simp: unindent_line_def)
qed

section \<open>The shape of the detected blocks\<close>

lemma emit_iff:
  "blk \<in> set (emit s buf) \<longleftrightarrow>
     pop_trailing_blank buf \<noteq> [] \<and>
     blk = (s, s + length (pop_trailing_blank buf) - 1, join_nl (pop_trailing_blank buf))"
  by (auto simp: emit_def Let_def)

lemma pop_trailing_blank_take:
  "pop_trailing_blank buf = take (length (pop_trailing_blank buf)) buf"
proof -
  obtain rest where "buf = pop_trailing_blank buf @ rest"
    using pop_trailing_blank_decomp by blast
  then have "take (length (pop_trailing_blank buf)) buf =
      take (length (pop_trailing_blank buf)) (pop_trailing_blank buf @ rest)" by simp
  then show ?thesis by simp
qed

lemma pop_trailing_blank_length: "length (pop_trailing_blank buf) \<le> length buf"
proof -
  obtain rest where "buf = pop_trailing_blank buf @ rest"
    using pop_trailing_blank_decomp by blast
  then have "length buf = length (pop_trailing_blank buf) + length rest"
    by (metis length_append)
  then show ?thesis by simp
qed

lemma tracks_step:
  assumes "tracks L i m" "i < length L"
  shows "tracks L (Suc i) (next_mode i m (L ! i))"
proof (cases "is_fence_line (L ! i)")
  case True
  then show ?thesis using assms by (simp add: tracks_def next_mode_def)
next
  case nf: False
  show ?thesis
  proof (cases m)
    case Plain
    have t: "take (Suc 0) (drop i L) = [L ! i]"
      using assms(2) by (simp add: take_Suc_conv_app_nth)
    show ?thesis
    proof (cases "is_indented (L ! i)")
      case True
      have "\<forall>j. i \<le> j \<and> j < Suc i \<longrightarrow>
             \<not> is_fence_line (L ! j) \<and> (is_indented (L ! j) \<or> is_blank (L ! j))"
      proof (intro allI impI)
        fix j assume "i \<le> j \<and> j < Suc i"
        then have "j = i" by arith
        then show "\<not> is_fence_line (L ! j) \<and> (is_indented (L ! j) \<or> is_blank (L ! j))"
          using nf True by simp
      qed
      then show ?thesis
        using assms nf Plain t True by (simp add: tracks_def next_mode_def)
    next
      case False
      then show ?thesis
        using assms nf Plain by (simp add: tracks_def next_mode_def)
    qed
  next
    case Fenced
    then show ?thesis using assms nf by (simp add: tracks_def next_mode_def)
  next
    case (Block s buf)
    show ?thesis
    proof (cases "is_indented (L ! i) \<or> is_blank (L ! i)")
      case False
      then show ?thesis using assms nf Block by (simp add: tracks_def next_mode_def)
    next
      case True
      from assms Block have s: "s < i" and buf: "buf = take (i - s) (drop s L)"
        and ind: "is_indented (L ! s)"
        and inv: "\<forall>j. s \<le> j \<and> j < i \<longrightarrow>
             \<not> is_fence_line (L ! j) \<and> (is_indented (L ! j) \<or> is_blank (L ! j))"
        by (simp_all add: tracks_def)
      have "Suc i - s = Suc (i - s)" using s by arith
      moreover have "i - s < length (drop s L)" using s assms(2) by simp
      moreover have "drop s L ! (i - s) = L ! i" using s assms(2) by simp
      ultimately have tk: "take (Suc i - s) (drop s L) = buf @ [L ! i]"
        using buf by (simp add: take_Suc_conv_app_nth)
      have inv': "\<forall>j. s \<le> j \<and> j < Suc i \<longrightarrow>
             \<not> is_fence_line (L ! j) \<and> (is_indented (L ! j) \<or> is_blank (L ! j))"
      proof (intro allI impI)
        fix j assume "s \<le> j \<and> j < Suc i"
        then consider "s \<le> j \<and> j < i" | "j = i" by arith
        then show "\<not> is_fence_line (L ! j) \<and> (is_indented (L ! j) \<or> is_blank (L ! j))"
          using inv nf True by cases blast+
      qed
      have "next_mode i m (L ! i) = Block s (buf @ [L ! i])"
        using True nf Block by (simp add: next_mode_def)
      moreover have "tracks L (Suc i) (Block s (buf @ [L ! i]))"
        unfolding tracks_def using tk inv' s ind assms(2) by simp
      ultimately show ?thesis by simp
    qed
  qed
qed

lemma lower_step: "tracks L i m \<Longrightarrow> lower i m \<le> lower (Suc i) (next_mode i m l)"
  by (cases m) (simp_all add: lower_def tracks_def next_mode_def)

lemma drop_eq_ConsD:
  "drop i L = l # ls \<Longrightarrow> i < length L \<and> L ! i = l \<and> drop (Suc i) L = ls"
proof -
  assume a: "drop i L = l # ls"
  then have i: "i < length L" by (cases "i < length L") simp_all
  from Cons_nth_drop_Suc [OF i] a show ?thesis using i by simp
qed


lemma blocks_from_origin:
  "tracks L i m \<Longrightarrow> drop i L = ls \<Longrightarrow> blk \<in> set (blocks_from i m ls) \<Longrightarrow>
   \<exists>i' s buf. tracks L i' (Block s buf) \<and> blk \<in> set (emit s buf) \<and> lower i m \<le> s"
proof (induction ls arbitrary: i m)
  case Nil
  then show ?case
    by (cases m) (auto simp: flush_def lower_def)
next
  case (Cons l ls)
  from drop_eq_ConsD [OF Cons.prems(2)]
  have i: "i < length L" and l: "L ! i = l" and ls: "drop (Suc i) L = ls" by simp_all
  from Cons.prems(3) consider (now) "blk \<in> set (emitted_by m l)"
    | (later) "blk \<in> set (blocks_from (Suc i) (next_mode i m l) ls)" by auto
  then show ?case
  proof cases
    case now
    then obtain s buf where "m = Block s buf" "blk \<in> set (emit s buf)"
      by (cases m) (auto simp: emitted_by_def split: if_splits)
    with Cons.prems(1) show ?thesis by (auto simp: lower_def)
  next
    case later
    have "tracks L (Suc i) (next_mode i m l)"
      using tracks_step [OF Cons.prems(1) i] l by simp
    from Cons.IH [OF this ls later] obtain i' s buf where
      "tracks L i' (Block s buf)" "blk \<in> set (emit s buf)"
      "lower (Suc i) (next_mode i m l) \<le> s" by blast
    moreover have "lower i m \<le> lower (Suc i) (next_mode i m l)"
      by (rule lower_step [OF Cons.prems(1)])
    ultimately show ?thesis by (meson le_trans)
  qed
qed

text \<open>What a block emitted from a tracked open block looks like.\<close>

lemma emitted_block_shape:
  assumes "tracks L i (Block s buf)" "(a, b, c) \<in> set (emit s buf)"
  shows "a = s \<and> a \<le> b \<and> b < i \<and> b < length L \<and>
         c = join_nl (take (Suc b - a) (drop a L)) \<and>
         is_indented (L ! a) \<and> \<not> is_blank (L ! b) \<and>
         (\<forall>j. a \<le> j \<and> j \<le> b \<longrightarrow>
            \<not> is_fence_line (L ! j) \<and> (is_indented (L ! j) \<or> is_blank (L ! j)))"
proof -
  let ?p = "pop_trailing_blank buf"
  let ?n = "length ?p"
  from assms(2) have ne: "?p \<noteq> []" and a: "a = s" and b: "b = s + ?n - 1"
    and c: "c = join_nl ?p" by (simp_all add: emit_iff)
  from assms(1) have i: "i \<le> length L" and s: "s < i"
    and buf: "buf = take (i - s) (drop s L)" and ind: "is_indented (L ! s)"
    and inv: "\<forall>j. s \<le> j \<and> j < i \<longrightarrow>
             \<not> is_fence_line (L ! j) \<and> (is_indented (L ! j) \<or> is_blank (L ! j))"
    by (simp_all add: tracks_def)
  have lenbuf: "length buf = i - s" using buf i s by simp
  have n0: "0 < ?n" using ne by simp
  have n1: "?n \<le> i - s" using pop_trailing_blank_length [of buf] lenbuf by simp
  have bi: "b < i" using b n0 n1 s by arith
  have sn: "Suc b - a = ?n" using a b n0 by arith
  have "?p = take ?n buf" by (rule pop_trailing_blank_take)
  also have "\<dots> = take ?n (drop s L)" using buf n1 by (simp add: min_def)
  finally have p: "?p = take ?n (drop s L)" .
  have "last ?p = ?p ! (?n - 1)" using ne by (simp add: last_conv_nth)
  also have "\<dots> = take ?n (drop s L) ! (?n - 1)" using p by simp
  also have "\<dots> = L ! (s + (?n - 1))" using n0 n1 s i by simp
  also have "s + (?n - 1) = b" using b n0 by arith
  finally have "last ?p = L ! b" .
  then have nb: "\<not> is_blank (L ! b)" using pop_trailing_blank_last [OF ne] by simp
  have all: "\<forall>j. a \<le> j \<and> j \<le> b \<longrightarrow>
            \<not> is_fence_line (L ! j) \<and> (is_indented (L ! j) \<or> is_blank (L ! j))"
  proof (intro allI impI)
    fix j assume "a \<le> j \<and> j \<le> b"
    then have "s \<le> j \<and> j < i" using a bi by arith
    then show "\<not> is_fence_line (L ! j) \<and> (is_indented (L ! j) \<or> is_blank (L ! j))"
      using inv by blast
  qed
  have ab: "a \<le> b" using a b n0 by arith
  have bl: "b < length L" using bi i by arith
  have cc: "c = join_nl (take (Suc b - a) (drop a L))" using c p sn a by metis
  have ia: "is_indented (L ! a)" using ind a by simp
  from a ab bi bl cc ia nb all show ?thesis by blast
qed

lemma sorted_wrt_emit: "sorted_wrt R (emit s buf)"
  by (simp add: emit_def Let_def)

lemma emitted_by_cases:
  assumes "blk \<in> set (emitted_by m l)"
  obtains s buf where "m = Block s buf" "blk \<in> set (emit s buf)"
    "next_mode i m l = Plain"
  using assms by (cases m) (auto simp: emitted_by_def next_mode_def split: if_splits)

lemma blocks_from_lower:
  assumes "tracks L i m" "drop i L = ls" "(a, b, c) \<in> set (blocks_from i m ls)"
  shows "lower i m \<le> a"
proof -
  from blocks_from_origin [OF assms] obtain i' s buf where
    t: "tracks L i' (Block s buf)" and e: "(a, b, c) \<in> set (emit s buf)"
    and lo: "lower i m \<le> s" by blast
  from emitted_block_shape [OF t e] lo show ?thesis by simp
qed

lemma blocks_from_sorted:
  "tracks L i m \<Longrightarrow> drop i L = ls \<Longrightarrow>
   sorted_wrt (\<lambda>x y. fst (snd x) < fst y) (blocks_from i m ls)"
proof (induction ls arbitrary: i m)
  case Nil
  then show ?case by (cases m) (simp_all add: flush_def sorted_wrt_emit)
next
  case (Cons l ls)
  from drop_eq_ConsD [OF Cons.prems(2)]
  have i: "i < length L" and l: "L ! i = l" and ls: "drop (Suc i) L = ls" by simp_all
  have tr: "tracks L (Suc i) (next_mode i m l)"
    using tracks_step [OF Cons.prems(1) i] l by simp
  have s1: "sorted_wrt (\<lambda>x y. fst (snd x) < fst y) (emitted_by m l)"
    by (cases m) (simp_all add: emitted_by_def sorted_wrt_emit)
  have s2: "sorted_wrt (\<lambda>x y. fst (snd x) < fst y) (blocks_from (Suc i) (next_mode i m l) ls)"
    by (rule Cons.IH [OF tr ls])
  have cross: "fst (snd x) < fst y"
    if x: "x \<in> set (emitted_by m l)" and y: "y \<in> set (blocks_from (Suc i) (next_mode i m l) ls)"
    for x y
  proof -
    from x obtain s buf where m: "m = Block s buf" and e: "x \<in> set (emit s buf)"
      and nm: "next_mode i m l = Plain" by (rule emitted_by_cases)
    obtain a b c where xe: "x = (a, b, c)" by (cases x)
    obtain a' b' c' where ye: "y = (a', b', c')" by (cases y)
    from emitted_block_shape [of L i s buf a b c] Cons.prems(1) m e xe have "b < i" by simp
    moreover from blocks_from_lower [OF tr ls] y ye nm have "Suc i \<le> a'"
      by (simp add: lower_def)
    ultimately show ?thesis using xe ye by simp
  qed
  show ?case
    using s1 s2 cross by (simp add: sorted_wrt_append)
qed

lemma next_mode_Block_not_Fenced: "next_mode i m l = Block s buf \<Longrightarrow> m \<noteq> Fenced"
  by (cases m) (auto simp: next_mode_def split: if_splits)

lemma blocks_from_not_fenced:
  "tracks L i m \<Longrightarrow> drop i L = ls \<Longrightarrow> (a, b, c) \<in> set (blocks_from i m ls) \<Longrightarrow>
   i \<le> j \<Longrightarrow> a \<le> j \<Longrightarrow> j \<le> b \<Longrightarrow> mode_after i m (take (j - i) ls) \<noteq> Fenced"
proof (induction ls arbitrary: i m)
  case Nil
  then obtain s buf where m: "m = Block s buf" and e: "(a, b, c) \<in> set (emit s buf)"
    by (cases m) (auto simp: flush_def)
  from emitted_block_shape [of L i s buf a b c] Nil.prems(1) m e have "b < i" by simp
  with Nil.prems show ?case by simp
next
  case (Cons l ls)
  from drop_eq_ConsD [OF Cons.prems(2)]
  have i: "i < length L" and l: "L ! i = l" and ls: "drop (Suc i) L = ls" by simp_all
  have tr: "tracks L (Suc i) (next_mode i m l)"
    using tracks_step [OF Cons.prems(1) i] l by simp
  from Cons.prems(3) consider (now) "(a, b, c) \<in> set (emitted_by m l)"
    | (later) "(a, b, c) \<in> set (blocks_from (Suc i) (next_mode i m l) ls)" by auto
  then show ?case
  proof cases
    case now
    then obtain s buf where m: "m = Block s buf" and e: "(a, b, c) \<in> set (emit s buf)"
      by (rule emitted_by_cases)
    from emitted_block_shape [of L i s buf a b c] Cons.prems(1) m e have "b < i" by simp
    with Cons.prems show ?thesis by simp
  next
    case later
    show ?thesis
    proof (cases "j = i")
      case True
      from blocks_from_lower [OF tr ls later] Cons.prems(5) True
      have "lower (Suc i) (next_mode i m l) \<le> i" by simp
      then obtain s buf where "next_mode i m l = Block s buf"
        by (cases "next_mode i m l") (simp_all add: lower_def)
      then have "m \<noteq> Fenced" by (rule next_mode_Block_not_Fenced)
      with True show ?thesis by simp
    next
      case False
      with Cons.prems(4) have le: "Suc i \<le> j" and eq: "j - i = Suc (j - Suc i)" by arith+
      from Cons.IH [OF tr ls later le Cons.prems(5,6)] eq show ?thesis by simp
    qed
  qed
qed

lemma mode_after_lower:
  "tracks L i m \<Longrightarrow> drop i L = ls \<Longrightarrow> mode_after i m (take n ls) = Block s buf \<Longrightarrow>
   lower i m \<le> s"
proof (induction ls arbitrary: i m n)
  case Nil
  then show ?case by (simp add: lower_def)
next
  case (Cons l ls)
  from drop_eq_ConsD [OF Cons.prems(2)]
  have i: "i < length L" and l: "L ! i = l" and ls: "drop (Suc i) L = ls" by simp_all
  have tr: "tracks L (Suc i) (next_mode i m l)"
    using tracks_step [OF Cons.prems(1) i] l by simp
  show ?case
  proof (cases n)
    case 0
    with Cons.prems(3) show ?thesis by (simp add: lower_def)
  next
    case (Suc n')
    with Cons.prems(3) have "mode_after (Suc i) (next_mode i m l) (take n' ls) = Block s buf"
      by simp
    from Cons.IH [OF tr ls this] lower_step [OF Cons.prems(1), of l] show ?thesis
      by (rule_tac le_trans) 
  qed
qed

lemma blocks_from_discard:
  "tracks L i m \<Longrightarrow> drop i L = ls \<Longrightarrow> i \<le> p \<Longrightarrow> p < length L \<Longrightarrow>
   mode_after i m (take (p - i) ls) = Block s buf \<Longrightarrow> is_fence_line (L ! p) \<Longrightarrow>
   (a, b, c) \<in> set (blocks_from i m ls) \<Longrightarrow> b < s \<or> p < a"
proof (induction ls arbitrary: i m)
  case Nil
  then show ?case by simp
next
  case (Cons l ls)
  from drop_eq_ConsD [OF Cons.prems(2)]
  have i: "i < length L" and l: "L ! i = l" and ls: "drop (Suc i) L = ls" by simp_all
  have tr: "tracks L (Suc i) (next_mode i m l)"
    using tracks_step [OF Cons.prems(1) i] l by simp
  show ?case
  proof (cases "p = i")
    case True
    with Cons.prems(5) have m: "m = Block s buf" by simp
    from True Cons.prems(6) l have fl: "is_fence_line l" by simp
    with m have nm: "next_mode i m l = Fenced" and "emitted_by m l = []"
      by (simp_all add: next_mode_def emitted_by_def)
    with Cons.prems(7) have "(a, b, c) \<in> set (blocks_from (Suc i) Fenced ls)" by simp
    from blocks_from_lower [OF tr [unfolded nm] ls this] True show ?thesis
      by (simp add: lower_def)
  next
    case False
    with Cons.prems(3) have le: "Suc i \<le> p" and eq: "p - i = Suc (p - Suc i)" by arith+
    from Cons.prems(5) eq
    have ma: "mode_after (Suc i) (next_mode i m l) (take (p - Suc i) ls) = Block s buf" by simp
    from Cons.prems(7) consider (now) "(a, b, c) \<in> set (emitted_by m l)"
      | (later) "(a, b, c) \<in> set (blocks_from (Suc i) (next_mode i m l) ls)" by auto
    then show ?thesis
    proof cases
      case now
      then obtain s0 buf0 where m: "m = Block s0 buf0" and e: "(a, b, c) \<in> set (emit s0 buf0)"
        and nm: "next_mode i m l = Plain" by (rule emitted_by_cases)
      from emitted_block_shape [of L i s0 buf0 a b c] Cons.prems(1) m e have "b < i" by simp
      moreover from mode_after_lower [OF tr ls ma] nm have "Suc i \<le> s" by (simp add: lower_def)
      ultimately show ?thesis by simp
    next
      case later
      from Cons.IH [OF tr ls le Cons.prems(4) ma Cons.prems(6) later] show ?thesis .
    qed
  qed
qed

lemma frontmatter_span_iff:
  "detect_frontmatter_boundaries content = Some (a, b) \<longleftrightarrow>
     a = 0 \<and> 0 < b \<and> b < length (split_nl content) \<and>
     (strip (split_nl content ! 0) = str ''+++'' \<or> strip (split_nl content ! 0) = str ''---'') \<and>
     strip (split_nl content ! b) = strip (split_nl content ! 0) \<and>
     (\<forall>j. 0 < j \<and> j < b \<longrightarrow> strip (split_nl content ! j) \<noteq> strip (split_nl content ! 0))"
proof -
  obtain first rest where sp: "split_nl content = first # rest"
    by (cases "split_nl content") auto
  have "(\<exists>n. b = Suc n \<and> n < length rest \<and> strip (rest ! n) = strip first \<and>
          (\<forall>j<n. strip (rest ! j) \<noteq> strip first)) \<longleftrightarrow>
        (0 < b \<and> b < Suc (length rest) \<and> strip ((first # rest) ! b) = strip first \<and>
          (\<forall>j. 0 < j \<and> j < b \<longrightarrow> strip ((first # rest) ! j) \<noteq> strip first))"
  proof (cases b)
    case 0
    then show ?thesis by simp
  next
    case (Suc n)
    have "(\<forall>j<n. strip (rest ! j) \<noteq> strip first) \<longleftrightarrow>
          (\<forall>j. 0 < j \<and> j < Suc n \<longrightarrow> strip ((first # rest) ! j) \<noteq> strip first)"
    proof
      assume a: "\<forall>j<n. strip (rest ! j) \<noteq> strip first"
      show "\<forall>j. 0 < j \<and> j < Suc n \<longrightarrow> strip ((first # rest) ! j) \<noteq> strip first"
      proof (intro allI impI)
        fix j assume "0 < j \<and> j < Suc n"
        then show "strip ((first # rest) ! j) \<noteq> strip first"
          using a by (cases j) simp_all
      qed
    next
      assume a: "\<forall>j. 0 < j \<and> j < Suc n \<longrightarrow> strip ((first # rest) ! j) \<noteq> strip first"
      show "\<forall>j<n. strip (rest ! j) \<noteq> strip first"
      proof (intro allI impI)
        fix j assume "j < n"
        then have "0 < Suc j \<and> Suc j < Suc n" by simp
        with a have "strip ((first # rest) ! Suc j) \<noteq> strip first" by blast
        then show "strip (rest ! j) \<noteq> strip first" by simp
      qed
    qed
    with Suc show ?thesis by simp
  qed
  then show ?thesis
    unfolding detect_frontmatter_boundaries_def sp frontmatter_of_lines_iff
    by (simp only: length_Cons nth_Cons_0) blast
qed

section \<open>The detected blocks on the lines of the document\<close>

lemma frontmatter_fm_ok: "fm_ok (detect_frontmatter_boundaries content)"
  by (auto simp: fm_ok_def detect_frontmatter_boundaries_def frontmatter_of_lines_def
      split: list.splits option.splits if_splits)

lemma skip_of_le: "skip_of (detect_frontmatter_boundaries content) \<le> length (split_nl content)"
proof (cases "detect_frontmatter_boundaries content")
  case None
  then show ?thesis by (simp add: skip_of_def)
next
  case (Some p)
  obtain a b where p: "p = (a, b)" by (cases p)
  from Some p frontmatter_span_iff [of content a b]
  have "b < length (split_nl content)" by simp
  with Some p show ?thesis by (simp add: skip_of_def)
qed

lemma in_frontmatter_skip:
  "in_frontmatter (detect_frontmatter_boundaries content) j \<longleftrightarrow>
     j < skip_of (detect_frontmatter_boundaries content)"
  using frontmatter_fm_ok [of content]
  by (auto simp: in_frontmatter_def skip_of_def fm_ok_def split: option.splits)

lemma tracks_start:
  "tracks (split_nl content) (skip_of (detect_frontmatter_boundaries content)) Plain"
  by (simp add: tracks_def skip_of_le)

lemma detect_blocks:
  "detect_indented_code_blocks content =
     blocks_from (skip_of (detect_frontmatter_boundaries content)) Plain
       (drop (skip_of (detect_frontmatter_boundaries content)) (split_nl content))"
  by (simp add: detect_blocks_from Let_def)

lemma take_enumerate: "take i (enumerate n xs) = enumerate n (take i xs)"
proof (induction xs arbitrary: i n)
  case Nil
  then show ?case by simp
next
  case (Cons x xs)
  then show ?case by (cases i) simp_all
qed

lemma state_before_scan:
  "state_before content i =
     foldl (scan_line None) initial_state
       (enumerate (skip_of (detect_frontmatter_boundaries content))
          (take (i - skip_of (detect_frontmatter_boundaries content))
             (drop (skip_of (detect_frontmatter_boundaries content)) (split_nl content))))"
  unfolding state_before_def take_enumerate
  by (simp add: scan_fold_frontmatter [OF frontmatter_fm_ok] drop_take)

lemma state_before_wf: "wf_state (state_before content i)"
  unfolding state_before_scan by (rule scan_fold_wf [OF wf_initial])

lemma state_before_mode:
  "mode_of (state_before content i) =
     mode_after (skip_of (detect_frontmatter_boundaries content)) Plain
       (take (i - skip_of (detect_frontmatter_boundaries content))
          (drop (skip_of (detect_frontmatter_boundaries content)) (split_nl content)))"
  unfolding state_before_scan by (simp add: scan_fold_mode wf_initial mode_initial)

lemma state_before_Suc:
  assumes "i < length (split_nl content)"
  shows "state_before content (Suc i) =
     scan_line (detect_frontmatter_boundaries content) (state_before content i)
       (i, split_nl content ! i)"
proof -
  have "take (Suc i) (enumerate 0 (split_nl content)) =
      take i (enumerate 0 (split_nl content)) @ [(i, split_nl content ! i)]"
    using assms by (simp add: take_Suc_conv_app_nth nth_enumerate_eq)
  then show ?thesis by (simp add: state_before_def)
qed

lemma in_fenced_mode: "in_fenced_block st \<longleftrightarrow> mode_of st = Fenced"
  by (simp add: mode_of_def split: option.splits)

text \<open>Every detected block, described on the lines of the document.\<close>

lemma detected_block:
  assumes "(a, b, c) \<in> set (detect_indented_code_blocks content)"
  shows "skip_of (detect_frontmatter_boundaries content) \<le> a \<and> a \<le> b \<and>
         b < length (split_nl content) \<and>
         c = join_nl (take (Suc b - a) (drop a (split_nl content))) \<and>
         is_indented (split_nl content ! a) \<and> \<not> is_blank (split_nl content ! b) \<and>
         (\<forall>j. a \<le> j \<and> j \<le> b \<longrightarrow>
            \<not> is_fence_line (split_nl content ! j) \<and>
            (is_indented (split_nl content ! j) \<or> is_blank (split_nl content ! j)))"
proof -
  let ?L = "split_nl content"
  let ?k = "skip_of (detect_frontmatter_boundaries content)"
  from assms have mem: "(a, b, c) \<in> set (blocks_from ?k Plain (drop ?k ?L))"
    by (simp add: detect_blocks)
  from blocks_from_origin [OF tracks_start refl mem] obtain i' s buf where
    t: "tracks ?L i' (Block s buf)" and e: "(a, b, c) \<in> set (emit s buf)"
    and lo: "lower ?k Plain \<le> s" by blast
  from lo have "?k \<le> s" by (simp add: lower_def)
  with emitted_block_shape [OF t e] show ?thesis by blast
qed

lemma detected_not_fenced_before:
  assumes "(a, b, c) \<in> set (detect_indented_code_blocks content)" "a \<le> j" "j \<le> b"
  shows "\<not> in_fenced_block (state_before content j)"
proof -
  let ?L = "split_nl content"
  let ?k = "skip_of (detect_frontmatter_boundaries content)"
  from assms(1) have mem: "(a, b, c) \<in> set (blocks_from ?k Plain (drop ?k ?L))"
    by (simp add: detect_blocks)
  from detected_block [OF assms(1)] assms(2) have "?k \<le> j" by simp
  from blocks_from_not_fenced [OF tracks_start refl mem this assms(2,3)]
  show ?thesis by (simp add: in_fenced_mode state_before_mode)
qed

lemma detected_not_fenced_after:
  assumes "(a, b, c) \<in> set (detect_indented_code_blocks content)" "a \<le> j" "j \<le> b"
  shows "\<not> in_fenced_block (state_before content (Suc j))"
proof -
  from detected_block [OF assms(1)] assms(2,3)
  have k: "skip_of (detect_frontmatter_boundaries content) \<le> j"
    and j: "j < length (split_nl content)"
    and nf: "\<not> is_fence_line (split_nl content ! j)" by simp_all
  from k have "\<not> in_frontmatter (detect_frontmatter_boundaries content) j"
    by (simp add: in_frontmatter_skip)
  with nf detected_not_fenced_before [OF assms] show ?thesis
    by (simp add: state_before_Suc [OF j] scan_line_def close_block_def Let_def
        split: option.splits)
qed

lemma blocks_from_no_indented:
  "\<forall>l\<in>set ls. \<not> is_indented l \<Longrightarrow> m = Plain \<or> m = Fenced \<Longrightarrow> blocks_from i m ls = []"
proof (induction ls arbitrary: i m)
  case Nil
  then show ?case by (auto simp: flush_def)
next
  case (Cons l ls)
  from Cons.prems have "next_mode i m l = Plain \<or> next_mode i m l = Fenced"
    by (auto simp: next_mode_def)
  moreover from Cons.prems(2) have "emitted_by m l = []" by (auto simp: emitted_by_def)
  ultimately show ?case using Cons.IH Cons.prems(1) by simp
qed

lemma no_indented_no_blocks:
  assumes "\<forall>l\<in>set (split_nl content). \<not> is_indented l"
  shows "detect_indented_code_blocks content = []"
proof -
  have "\<forall>l\<in>set (drop (skip_of (detect_frontmatter_boundaries content)) (split_nl content)).
      \<not> is_indented l"
    using assms by (meson in_set_dropD)
  then show ?thesis unfolding detect_blocks by (rule blocks_from_no_indented) simp
qed

section \<open>Replacing blocks from the last to the first\<close>

lemma replace_block_eq:
  "a \<le> b \<Longrightarrow> replace_block X (a, b, c) = take a X @ fenced_block c @ drop (Suc b) X"
  by (simp add: replace_block_def assign_slice_def max_def)

lemma fitting_length:
  assumes "fitting L (a, b, c)"
  shows "length (fenced_block c) = b - a + 3"
proof -
  from assms have ab: "a \<le> b" and bl: "b < length L"
    and fb: "fenced_block c = [fence] @ map unindent_line (take (Suc b - a) (drop a L)) @ [fence]"
    by (simp_all add: fitting_def)
  have "length (take (Suc b - a) (drop a L)) = Suc b - a" using ab bl by simp
  then have "length (fenced_block c) = Suc (Suc (Suc b - a))" using fb by simp
  then show ?thesis using ab by arith
qed

lemma replace_block_length:
  assumes "a \<le> b" "b < length X" "length (fenced_block c) = b - a + 3"
  shows "length (replace_block X (a, b, c)) = length X + 2"
  using assms by (simp add: replace_block_eq)

lemma replace_block_before:
  assumes "a \<le> b" "a \<le> length X" "p < a"
  shows "replace_block X (a, b, c) ! p = X ! p"
  using assms by (simp add: replace_block_eq nth_append)

lemma replace_block_inside:
  assumes "a \<le> b" "a \<le> length X" "t < length (fenced_block c)"
  shows "replace_block X (a, b, c) ! (a + t) = fenced_block c ! t"
  using assms by (simp add: replace_block_eq nth_append)

lemma replace_block_after:
  assumes "a \<le> b" "b < length X" "length (fenced_block c) = b - a + 3" "b < p"
  shows "replace_block X (a, b, c) ! (p + 2) = X ! p"
proof -
  let ?P = "take a X @ fenced_block c"
  have "length (take a X) = a" using assms by simp
  then have lenP: "length ?P = b + 3" using assms by simp
  have idx: "p + 2 = length ?P + (p - Suc b)" using lenP assms by arith
  have "replace_block X (a, b, c) = ?P @ drop (Suc b) X"
    using assms(1) by (simp add: replace_block_eq)
  then have "replace_block X (a, b, c) ! (p + 2) =
      (?P @ drop (Suc b) X) ! (length ?P + (p - Suc b))" using idx by simp
  also have "\<dots> = drop (Suc b) X ! (p - Suc b)" by (rule nth_append_length_plus)
  also have "\<dots> = X ! (Suc b + (p - Suc b))" using assms by simp
  also have "Suc b + (p - Suc b) = p" using assms by arith
  finally show ?thesis .
qed

lemma apply_blocks_Cons:
  "apply_blocks (blk # bs) L = replace_block (apply_blocks bs L) blk"
  by (simp add: apply_blocks_def)

lemma apply_blocks_Nil [simp]: "apply_blocks [] L = L"
  by (simp add: apply_blocks_def)

lemma apply_blocks_length:
  "\<forall>blk\<in>set bs. fitting L blk \<Longrightarrow> length (apply_blocks bs L) = length L + 2 * length bs"
proof (induction bs)
  case Nil
  then show ?case by simp
next
  case (Cons blk bs)
  obtain a b c where blk: "blk = (a, b, c)" by (cases blk)
  from Cons.prems blk have f: "fitting L (a, b, c)" by simp
  then have ab: "a \<le> b" and bl: "b < length L" by (simp_all add: fitting_def)
  from Cons have len: "length (apply_blocks bs L) = length L + 2 * length bs" by simp
  then have "b < length (apply_blocks bs L)" using bl by simp
  from replace_block_length [OF ab this fitting_length [OF f]] len blk
  show ?case by (simp add: apply_blocks_Cons)
qed

text \<open>Lines outside every span are carried over, two places further for every span before.\<close>

lemma apply_blocks_outside:
  assumes "sorted_wrt (\<lambda>x y. fst (snd x) < fst y) bs" "\<forall>blk\<in>set bs. fitting L blk"
    "\<forall>(a, b, c)\<in>set bs. i < a \<or> b < i"
  shows "apply_blocks bs L ! (i + 2 * length (filter (\<lambda>x. fst (snd x) < i) bs)) = L ! i"
  using assms
proof (induction bs)
  case Nil
  then show ?case by simp
next
  case (Cons blk bs)
  obtain a b c where blk: "blk = (a, b, c)" by (cases blk)
  let ?X = "apply_blocks bs L"
  let ?n = "length (filter (\<lambda>x. fst (snd x) < i) bs)"
  from Cons.prems blk have f: "fitting L (a, b, c)" by simp
  then have ab: "a \<le> b" and bl: "b < length L" by (simp_all add: fitting_def)
  from Cons.prems have fits: "\<forall>blk\<in>set bs. fitting L blk" by simp
  have len: "length ?X = length L + 2 * length bs" by (rule apply_blocks_length [OF fits])
  have bX: "b < length ?X" using bl len by simp
  from Cons.prems have IH: "?X ! (i + 2 * ?n) = L ! i"
    by (intro Cons.IH) simp_all
  from Cons.prems(3) blk consider (before) "i < a" | (after) "b < i" by auto
  then show ?case
  proof cases
    case before
    have "\<not> fst (snd y) < i" if "y \<in> set bs" for y
    proof -
      obtain a' b' c' where y: "y = (a', b', c')" by (cases y)
      from Cons.prems(1) blk that y have "b < a'" by auto
      moreover from fits that y have "a' \<le> b'" by (auto simp: fitting_def)
      ultimately show ?thesis using before ab y by simp
    qed
    then have n0: "filter (\<lambda>x. fst (snd x) < i) bs = []" by (simp add: filter_empty_conv)
    have "a \<le> length ?X" using ab bX by arith
    from replace_block_before [OF ab this before] IH n0 before ab blk
    show ?thesis by (simp add: apply_blocks_Cons)
  next
    case after
    have "b < i + 2 * ?n" using after by simp
    from replace_block_after [OF ab bX fitting_length [OF f] this] IH after blk
    show ?thesis by (simp add: apply_blocks_Cons add.commute add.left_commute)
  qed
qed

lemma nth_wrapped_last: "length xs = n \<Longrightarrow> (f # xs @ [g]) ! Suc n = g"
  by (simp add: nth_append)

lemma nth_wrapped_mid: "t < length xs \<Longrightarrow> (f # xs @ [g]) ! Suc t = xs ! t"
  by (simp add: nth_append)

text \<open>The lines of a span become the fences and the unindented lines between them.\<close>

lemma apply_blocks_span:
  assumes "sorted_wrt (\<lambda>x y. fst (snd x) < fst y) bs" "\<forall>blk\<in>set bs. fitting L blk"
    "m < length bs" "bs ! m = (a, b, c)"
  shows "apply_blocks bs L ! (a + 2 * m) = fence \<and>
         (\<forall>j. a \<le> j \<and> j \<le> b \<longrightarrow> apply_blocks bs L ! (j + 2 * m + 1) = unindent_line (L ! j)) \<and>
         apply_blocks bs L ! (b + 2 * m + 2) = fence"
  using assms
proof (induction bs arbitrary: m)
  case Nil
  then show ?case by simp
next
  case (Cons blk bs)
  obtain a0 b0 c0 where blk: "blk = (a0, b0, c0)" by (cases blk)
  let ?X = "apply_blocks bs L"
  from Cons.prems blk have f: "fitting L (a0, b0, c0)" by simp
  then have ab: "a0 \<le> b0" and bl: "b0 < length L"
    and fb: "fenced_block c0 =
      [fence] @ map unindent_line (take (Suc b0 - a0) (drop a0 L)) @ [fence]"
    by (simp_all add: fitting_def)
  from Cons.prems have fits: "\<forall>blk\<in>set bs. fitting L blk" by simp
  have len: "length ?X = length L + 2 * length bs" by (rule apply_blocks_length [OF fits])
  have bX: "b0 < length ?X" using bl len by simp
  have aX: "a0 \<le> length ?X" using ab bX by arith
  have lenF: "length (fenced_block c0) = b0 - a0 + 3" by (rule fitting_length [OF f])
  have out: "apply_blocks (blk # bs) L = replace_block ?X (a0, b0, c0)"
    by (simp add: apply_blocks_Cons blk)
  show ?case
  proof (cases m)
    case 0
    with Cons.prems(4) blk have eq: "a = a0" "b = b0" "c = c0" by simp_all
    have lenT: "length (take (Suc b0 - a0) (drop a0 L)) = Suc b0 - a0" using ab bl by simp
    have first: "replace_block ?X (a0, b0, c0) ! (a0 + 0) = fenced_block c0 ! 0"
      by (rule replace_block_inside [OF ab aX]) (simp add: lenF)
    have last: "replace_block ?X (a0, b0, c0) ! (a0 + (b0 - a0 + 2)) =
        fenced_block c0 ! (b0 - a0 + 2)"
      by (rule replace_block_inside [OF ab aX]) (simp add: lenF)
    have "length (map unindent_line (take (Suc b0 - a0) (drop a0 L))) = Suc (b0 - a0)"
      using lenT ab by (simp add: Suc_diff_le)
    then have "(fence # map unindent_line (take (Suc b0 - a0) (drop a0 L)) @ [fence]) !
        Suc (Suc (b0 - a0)) = fence" by (rule nth_wrapped_last)
    then have "fenced_block c0 ! (b0 - a0 + 2) = fence"
      using fb by simp
    with last have l: "replace_block ?X (a0, b0, c0) ! (b0 + 2) = fence"
      using ab by simp
    have mid: "replace_block ?X (a0, b0, c0) ! (j + 1) = unindent_line (L ! j)"
      if "a0 \<le> j \<and> j \<le> b0" for j
    proof -
      have "replace_block ?X (a0, b0, c0) ! (a0 + (j - a0 + 1)) = fenced_block c0 ! (j - a0 + 1)"
      proof (rule replace_block_inside [OF ab aX])
        show "j - a0 + 1 < length (fenced_block c0)" using that lenF by arith
      qed
      moreover have "fenced_block c0 ! (j - a0 + 1) = unindent_line (L ! j)"
      proof -
        have t: "j - a0 < Suc b0 - a0" using that by arith
        then have "j - a0 < length (map unindent_line (take (Suc b0 - a0) (drop a0 L)))"
          using lenT by simp
        then have "(fence # map unindent_line (take (Suc b0 - a0) (drop a0 L)) @ [fence]) !
            Suc (j - a0) = map unindent_line (take (Suc b0 - a0) (drop a0 L)) ! (j - a0)"
          by (rule nth_wrapped_mid)
        also have "\<dots> = unindent_line (L ! (a0 + (j - a0)))"
          using t lenT bl that by simp
        also have "a0 + (j - a0) = j" using that by arith
        finally show ?thesis using fb by simp
      qed
      moreover have "a0 + (j - a0 + 1) = j + 1" using that by arith
      ultimately show ?thesis by simp
    qed
    from first fb l mid show ?thesis by (simp add: out 0 eq)
  next
    case (Suc m')
    with Cons.prems have m': "m' < length bs" and nth: "bs ! m' = (a, b, c)" by simp_all
    from Cons.prems(1) have srt: "sorted_wrt (\<lambda>x y. fst (snd x) < fst y) bs" by simp
    from Cons.IH [OF srt fits m' nth]
    have IH1: "?X ! (a + 2 * m') = fence"
      and IH2: "\<forall>j. a \<le> j \<and> j \<le> b \<longrightarrow> ?X ! (j + 2 * m' + 1) = unindent_line (L ! j)"
      and IH3: "?X ! (b + 2 * m' + 2) = fence" by simp_all
    have "(a, b, c) \<in> set bs" using m' nth by (metis nth_mem)
    with Cons.prems(1) blk have lt: "b0 < a" by auto
    from fits \<open>(a, b, c) \<in> set bs\<close> have ab': "a \<le> b" by (auto simp: fitting_def)
    have sh: "replace_block ?X (a0, b0, c0) ! (p + 2) = ?X ! p" if "b0 < p" for p
      by (rule replace_block_after [OF ab bX lenF that])
    have 1: "replace_block ?X (a0, b0, c0) ! (a + 2 * m) = fence"
      using sh [of "a + 2 * m'"] lt IH1 Suc by simp
    have 3: "replace_block ?X (a0, b0, c0) ! (b + 2 * m + 2) = fence"
      using sh [of "b + 2 * m' + 2"] lt ab' IH3 Suc by simp
    have 2: "replace_block ?X (a0, b0, c0) ! (j + 2 * m + 1) = unindent_line (L ! j)"
      if "a \<le> j \<and> j \<le> b" for j
      using sh [of "j + 2 * m' + 1"] lt that IH2 Suc by simp
    from 1 2 3 show ?thesis by (simp add: out)
  qed
qed

lemma apply_blocks_prefix:
  assumes "\<forall>blk\<in>set bs. fitting L blk" "\<forall>(a, b, c)\<in>set bs. n \<le> a"
  shows "take n (apply_blocks bs L) = take n L"
  using assms
proof (induction bs)
  case Nil
  then show ?case by simp
next
  case (Cons blk bs)
  obtain a b c where blk: "blk = (a, b, c)" by (cases blk)
  from Cons.prems blk have f: "fitting L (a, b, c)" and na: "n \<le> a" by simp_all
  then have ab: "a \<le> b" and bl: "b < length L" by (simp_all add: fitting_def)
  from Cons.prems have fits: "\<forall>blk\<in>set bs. fitting L blk" by simp
  have len: "length (apply_blocks bs L) = length L + 2 * length bs"
    by (rule apply_blocks_length [OF fits])
  then have "a \<le> length (apply_blocks bs L)" using ab bl by simp
  then have "take n (replace_block (apply_blocks bs L) (a, b, c)) = take n (apply_blocks bs L)"
    using na ab by (simp add: replace_block_eq min_def)
  moreover from Cons.prems have "take n (apply_blocks bs L) = take n L"
    by (intro Cons.IH) simp_all
  ultimately show ?case by (simp add: apply_blocks_Cons blk)
qed

lemma detected_fitting:
  assumes "blk \<in> set (detect_indented_code_blocks content)"
  shows "fitting (split_nl content) blk"
proof -
  obtain a b c where blk: "blk = (a, b, c)" by (cases blk)
  let ?L = "split_nl content"
  let ?ls = "take (Suc b - a) (drop a ?L)"
  from detected_block [of a b c content] assms blk
  have ab: "a \<le> b" and bl: "b < length ?L" and c: "c = join_nl ?ls" by simp_all
  have ne: "?ls \<noteq> []" using ab bl by simp
  have "\<forall>l\<in>set ?ls. NL \<notin> set l"
    by (meson in_set_takeD in_set_dropD split_nl_lines_no_NL)
  with ne have "split_nl (join_nl ?ls) = ?ls" by (rule split_join_nl)
  then have "fenced_block c = [fence] @ map unindent_line ?ls @ [fence]"
    by (simp add: fenced_block_def split_unindent_code c)
  with ab bl blk show ?thesis by (simp add: fitting_def)
qed

lemma fence_no_NL: "NL \<notin> set fence"
  by (simp add: fence_eq NL_def)

lemma replace_block_no_NL:
  assumes "\<forall>l\<in>set X. NL \<notin> set l"
  shows "\<forall>l\<in>set (replace_block X blk). NL \<notin> set l"
proof -
  obtain a b c where blk: "blk = (a, b, c)" by (cases blk)
  have "set (replace_block X (a, b, c)) \<subseteq>
      set X \<union> {fence} \<union> set (split_nl (unindent_code c))"
    by (auto simp: replace_block_def assign_slice_def fenced_block_def
        dest: in_set_takeD in_set_dropD)
  with assms blk show ?thesis
    using fence_no_NL split_nl_lines_no_NL by blast
qed

lemma apply_blocks_no_NL:
  "\<forall>l\<in>set L. NL \<notin> set l \<Longrightarrow> \<forall>l\<in>set (apply_blocks bs L). NL \<notin> set l"
  by (induction bs) (simp_all add: apply_blocks_Cons replace_block_no_NL)

lemma convert_apply_blocks:
  "convert_to_fenced_blocks content =
     join_nl (apply_blocks (detect_indented_code_blocks content) (split_nl content))"
  by (simp add: convert_to_fenced_blocks_def Let_def apply_blocks_def foldr_conv_foldl)

lemma split_convert:
  "split_nl (convert_to_fenced_blocks content) =
     apply_blocks (detect_indented_code_blocks content) (split_nl content)"
proof -
  let ?out = "apply_blocks (detect_indented_code_blocks content) (split_nl content)"
  have "length ?out = length (split_nl content) + 2 * length (detect_indented_code_blocks content)"
    by (rule apply_blocks_length) (simp add: detected_fitting)
  moreover have "length (split_nl content) \<noteq> 0" by simp
  ultimately have "?out \<noteq> []" by (metis add_is_0 length_0_conv)
  moreover have "\<forall>l\<in>set ?out. NL \<notin> set l"
    by (rule apply_blocks_no_NL) (simp add: split_nl_lines_no_NL)
  ultimately show ?thesis
    unfolding convert_apply_blocks by (rule split_join_nl)
qed

lemma detected_sorted:
  "sorted_wrt (\<lambda>x y. fst (snd x) < fst y) (detect_indented_code_blocks content)"
  unfolding detect_blocks by (rule blocks_from_sorted [OF tracks_start refl])

lemma detected_fits: "\<forall>blk\<in>set (detect_indented_code_blocks content). fitting (split_nl content) blk"
  by (simp add: detected_fitting)

section \<open>The output built front to back\<close>

lemma apply_blocks_append:
  "apply_blocks (xs @ ys) L = apply_blocks xs (apply_blocks ys L)"
  by (simp add: apply_blocks_def)

lemma fenced_block_join:
  assumes "ls \<noteq> []" "\<forall>l\<in>set ls. NL \<notin> set l"
  shows "fenced_block (join_nl ls) = [fence] @ map unindent_line ls @ [fence]"
  using split_join_nl [OF assms] by (simp add: fenced_block_def split_unindent_code)

lemma pop_trailing_blank_subset: "set (pop_trailing_blank buf) \<subseteq> set buf"
  by (metis pop_trailing_blank_take set_take_subset)

text \<open>Replacing the block that closing a buffer emits rewrites the buffer in place.\<close>

lemma apply_emit:
  assumes "length pre = s" "\<forall>l\<in>set buf. NL \<notin> set l"
  shows "apply_blocks (emit s buf) (pre @ buf @ T) = pre @ rewrite_buf buf @ T"
proof (cases "pop_trailing_blank buf = []")
  case True
  then show ?thesis by (simp add: emit_def rewrite_buf_def)
next
  case False
  let ?p = "pop_trailing_blank buf"
  let ?n = "length ?p"
  have n0: "0 < ?n" using False by simp
  have n1: "?n \<le> length buf" by (rule pop_trailing_blank_length)
  have "\<forall>l\<in>set ?p. NL \<notin> set l" using assms(2) pop_trailing_blank_subset by blast
  with False have fb: "fenced_block (join_nl ?p) = [fence] @ map unindent_line ?p @ [fence]"
    by (rule fenced_block_join)
  have le: "s \<le> s + ?n - 1" using n0 by arith
  have e: "Suc (s + ?n - 1) = s + ?n" using n0 by arith
  have "replace_block (pre @ buf @ T) (s, s + ?n - 1, join_nl ?p) =
      take s (pre @ buf @ T) @ fenced_block (join_nl ?p) @ drop (s + ?n) (pre @ buf @ T)"
    using replace_block_eq [OF le] e by simp
  also have "take s (pre @ buf @ T) = pre" using assms(1) by simp
  also have "drop (s + ?n) (pre @ buf @ T) = drop ?n buf @ T"
    using assms(1) n1 by simp
  finally have "replace_block (pre @ buf @ T) (s, s + ?n - 1, join_nl ?p) =
      pre @ ([fence] @ map unindent_line ?p @ [fence] @ drop ?n buf) @ T"
    using fb by simp
  then show ?thesis
    using False by (simp add: emit_def rewrite_buf_def Let_def apply_blocks_def)
qed

lemma wf_mode_step: "wf_mode i m \<Longrightarrow> wf_mode (Suc i) (next_mode i m l)"
  by (cases m) (simp_all add: wf_mode_def next_mode_def)

lemma lower_pending: "wf_mode i m \<Longrightarrow> lower i m + length (pending m) = i"
  by (cases m) (simp_all add: wf_mode_def lower_def pending_def)

text \<open>The replacements from the last block to the first give the output built front to back.\<close>

lemma apply_blocks_rewrite:
  "wf_mode i m \<Longrightarrow> length pre = lower i m \<Longrightarrow> \<forall>l\<in>set (pending m @ ls). NL \<notin> set l \<Longrightarrow>
   apply_blocks (blocks_from i m ls) (pre @ pending m @ ls) = pre @ rewrite_from i m ls"
proof (induction ls arbitrary: i m pre)
  case Nil
  show ?case
  proof (cases m)
    case (Block s buf)
    with Nil.prems have "length pre = s" "\<forall>l\<in>set buf. NL \<notin> set l"
      by (simp_all add: lower_def pending_def)
    from apply_emit [OF this, of "[]"] Block show ?thesis
      by (simp add: flush_def pending_def)
  qed (simp_all add: flush_def pending_def)
next
  case (Cons l ls)
  let ?m' = "next_mode i m l"
  let ?R = "rewrite_from (Suc i) ?m' ls"
  have wf': "wf_mode (Suc i) ?m'" by (rule wf_mode_step [OF Cons.prems(1)])
  have lp: "lower i m + length (pending m) = i" by (rule lower_pending [OF Cons.prems(1)])
  have nl: "\<forall>x\<in>set (pending m). NL \<notin> set x" "NL \<notin> set l" "\<forall>x\<in>set ls. NL \<notin> set x"
    using Cons.prems(3) by simp_all
  consider (keep) "\<exists>s buf. ?m' = Block s buf"
    | (settle) "?m' = Plain \<or> ?m' = Fenced" by (cases ?m') auto
  then show ?case
  proof cases
    case keep
    then obtain s buf where m': "?m' = Block s buf" by blast
    then have pend: "pending ?m' = pending m @ [l]" and lo: "lower (Suc i) ?m' = lower i m"
      and em: "emitted_by m l = []" and wr: "written_by m l = []"
      using lp
      by (cases m; auto simp: next_mode_def pending_def lower_def emitted_by_def written_by_def
          split: if_splits)+
    have "\<forall>x\<in>set (pending ?m' @ ls). NL \<notin> set x" using pend nl by auto
    from Cons.IH [OF wf' _ this, of pre] Cons.prems(2) lo pend em wr
    show ?thesis by simp
  next
    case settle
    then have pend: "pending ?m' = []" and lo: "lower (Suc i) ?m' = Suc i"
      by (auto simp: pending_def lower_def)
    have len: "length (pre @ pending m @ [l]) = lower (Suc i) ?m'"
      using Cons.prems(2) lp lo by simp
    have "\<forall>x\<in>set (pending ?m' @ ls). NL \<notin> set x" using pend nl by simp
    from Cons.IH [OF wf' len this] pend
    have X: "apply_blocks (blocks_from (Suc i) ?m' ls) (pre @ pending m @ l # ls) =
        pre @ pending m @ [l] @ ?R" by simp
    show ?thesis
    proof (cases "emitted_by m l = []")
      case True
      with settle have "written_by m l = pending m @ [l]"
        by (cases m) (auto simp: next_mode_def pending_def emitted_by_def written_by_def
            emit_def rewrite_buf_def Let_def split: if_splits)
      with True X show ?thesis by simp
    next
      case False
      then obtain s buf where m: "m = Block s buf" and em: "emitted_by m l = emit s buf"
        and wr: "written_by m l = rewrite_buf buf @ [l]"
        by (cases m) (auto simp: emitted_by_def written_by_def split: if_splits)
      from m Cons.prems(2) nl(1) have "length pre = s" "\<forall>x\<in>set buf. NL \<notin> set x"
        by (simp_all add: lower_def pending_def)
      from apply_emit [OF this, of "[l] @ ?R"] X m em wr show ?thesis
        by (simp add: apply_blocks_append pending_def)
    qed
  qed
qed

section \<open>Scanning the output again\<close>

lemma emit_all_blank: "\<forall>l\<in>set buf. is_blank l \<Longrightarrow> emit s buf = []"
proof -
  assume a: "\<forall>l\<in>set buf. is_blank l"
  have "pop_trailing_blank buf = []"
  proof (rule ccontr)
    assume ne: "pop_trailing_blank buf \<noteq> []"
    then have "last (pop_trailing_blank buf) \<in> set buf"
      using pop_trailing_blank_subset last_in_set by blast
    with a pop_trailing_blank_last [OF ne] show False by blast
  qed
  then show ?thesis by (simp add: emit_def)
qed

lemma flush_quiet: "quiet m \<Longrightarrow> flush m = []"
  by (cases m) (simp_all add: quiet_def flush_def emit_all_blank)

lemma quiet_not_Fenced: "quiet m \<Longrightarrow> m \<noteq> Fenced"
  by (auto simp: quiet_def)

text \<open>A line that is not indented and no fence line, read in a quiet mode.\<close>

lemma quiet_step_plain:
  assumes "quiet m" "\<not> is_fence_line l" "\<not> is_indented l"
  shows "emitted_by m l = [] \<and> quiet (next_mode j m l)"
  using assms
  by (cases m) (auto simp: quiet_def emitted_by_def next_mode_def emit_all_blank)

lemma quiet_step_blank:
  assumes "quiet m" "is_blank l"
  shows "emitted_by m l = [] \<and> quiet (next_mode j m l)"
  using assms blank_not_fence [of l]
  by (cases m) (auto simp: quiet_def emitted_by_def next_mode_def)

lemma quiet_step_fence:
  assumes "m \<noteq> Fenced" "is_fence_line l"
  shows "emitted_by m l = [] \<and> next_mode j m l = Fenced"
  using assms by (cases m) (auto simp: emitted_by_def next_mode_def)

lemma scan_blank_lines:
  assumes "\<forall>l\<in>set xs. is_blank l" "quiet m"
    and "\<And>j' m'. quiet m' \<Longrightarrow> blocks_from j' m' ys = []"
  shows "blocks_from j m (xs @ ys) = []"
  using assms(1,2)
proof (induction xs arbitrary: j m)
  case Nil
  then show ?case using assms(3) by simp
next
  case (Cons x xs)
  from Cons.prems have "emitted_by m x = [] \<and> quiet (next_mode j m x)"
    by (intro quiet_step_blank) simp_all
  with Cons show ?case by simp
qed

lemma scan_block_lines:
  assumes "\<forall>l\<in>set xs. \<not> is_fence_line l \<and> (is_indented l \<or> is_blank l)" "m \<noteq> Fenced"
    and "\<And>j' m'. m' \<noteq> Fenced \<Longrightarrow> blocks_from j' m' ys = []"
  shows "blocks_from j m (xs @ ys) = []"
  using assms(1,2)
proof (induction xs arbitrary: j m)
  case Nil
  then show ?case using assms(3) by simp
next
  case (Cons x xs)
  from Cons.prems have "emitted_by m x = [] \<and> next_mode j m x \<noteq> Fenced"
    by (cases m) (auto simp: emitted_by_def next_mode_def)
  with Cons show ?case by simp
qed

lemma scan_fenced_lines:
  assumes "\<forall>l\<in>set xs. \<not> is_fence_line l"
    and "\<And>j'. blocks_from j' Fenced ys = []"
  shows "blocks_from j Fenced (xs @ ys) = []"
  using assms(1)
proof (induction xs arbitrary: j)
  case Nil
  then show ?case using assms(2) by simp
next
  case (Cons x xs)
  then show ?case by (simp add: emitted_by_def next_mode_def)
qed

text \<open>The lines a closed block was rewritten to yield no block when scanned again.\<close>

lemma scan_rewrite_buf:
  assumes "\<forall>l\<in>set buf. \<not> is_fence_line l" "quiet m"
    and cont: "\<And>j' m'. quiet m' \<Longrightarrow> blocks_from j' m' ys = []"
  shows "blocks_from j m (rewrite_buf buf @ ys) = []"
proof (cases "pop_trailing_blank buf = []")
  case True
  obtain rest where "buf = pop_trailing_blank buf @ rest" "\<forall>l\<in>set rest. is_blank l"
    using pop_trailing_blank_decomp by blast
  with True have "\<forall>l\<in>set buf. is_blank l" by simp
  from scan_blank_lines [OF this assms(2) cont] True show ?thesis
    by (simp add: rewrite_buf_def)
next
  case False
  let ?p = "pop_trailing_blank buf"
  obtain rest where dec: "buf = ?p @ rest" and bl: "\<forall>l\<in>set rest. is_blank l"
    using pop_trailing_blank_decomp by blast
  then have dr: "drop (length ?p) buf = rest" by (metis append_eq_conv_conj)
  have nf: "\<forall>l\<in>set (map unindent_line ?p). \<not> is_fence_line l"
    using assms(1) pop_trailing_blank_subset by auto
  have tail: "blocks_from j' Plain (rest @ ys) = []" for j'
    by (rule scan_blank_lines [OF bl _ cont]) (simp_all add: quiet_def)
  have close: "blocks_from j' Fenced ((fence # rest) @ ys) = []" for j'
    using tail by (simp add: emitted_by_def next_mode_def)
  have inner: "blocks_from j' Fenced (map unindent_line ?p @ (fence # rest) @ ys) = []" for j'
    by (rule scan_fenced_lines [OF nf close])
  from quiet_step_fence [OF quiet_not_Fenced [OF assms(2)] is_fence_line_fence, of j]
  have "blocks_from j m (fence # map unindent_line ?p @ (fence # rest) @ ys) = []"
    using inner by simp
  then show ?thesis using False dr by (simp add: rewrite_buf_def Let_def)
qed

lemma okbuf_step: "okbuf m \<Longrightarrow> okbuf (next_mode i m l)"
  by (cases m) (auto simp: okbuf_def next_mode_def)

text \<open>Scanning the rewritten lines finds no block.\<close>

lemma scan_rewritten:
  "okbuf m \<Longrightarrow> (m = Fenced \<and> m2 = Fenced) \<or> (m \<noteq> Fenced \<and> quiet m2) \<Longrightarrow>
   blocks_from j m2 (rewrite_from i m ls) = []"
proof (induction ls arbitrary: i j m m2)
  case Nil
  show ?case
  proof (cases m)
    case Plain
    with Nil.prems show ?thesis by (simp add: flush_quiet)
  next
    case Fenced
    with Nil.prems show ?thesis by (simp add: flush_def)
  next
    case (Block s buf)
    with Nil.prems have q: "quiet m2" and nf: "\<forall>l\<in>set buf. \<not> is_fence_line l"
      by (simp_all add: okbuf_def)
    from scan_rewrite_buf [OF nf q, of "[]" j] Block show ?thesis by (simp add: flush_quiet)
  qed
next
  case (Cons l ls)
  let ?m' = "next_mode i m l"
  let ?R = "rewrite_from (Suc i) ?m' ls"
  have ok': "okbuf ?m'" by (rule okbuf_step [OF Cons.prems(1)])
  have IH: "blocks_from j' m2' ?R = []"
    if "(?m' = Fenced \<and> m2' = Fenced) \<or> (?m' \<noteq> Fenced \<and> quiet m2')" for j' m2'
    by (rule Cons.IH [OF ok' that])
  show ?case
  proof (cases "is_fence_line l")
    case fl: True
    show ?thesis
    proof (cases m)
      case Plain
      with Cons.prems fl have q: "quiet m2" and m': "?m' = Fenced"
        and wr: "written_by m l = [l]"
        by (simp_all add: next_mode_def written_by_def pending_def)
      from quiet_step_fence [OF quiet_not_Fenced [OF q] fl, of j] IH [of Fenced "Suc j"] m' wr
      show ?thesis by simp
    next
      case Fenced
      with Cons.prems fl have m2: "m2 = Fenced" and m': "?m' = Plain"
        and wr: "written_by m l = [l]"
        by (simp_all add: next_mode_def written_by_def pending_def)
      have "quiet Plain" by (simp add: quiet_def)
      with IH [of Plain "Suc j"] m' m2 wr fl show ?thesis
        by (simp add: emitted_by_def next_mode_def)
    next
      case (Block s buf)
      with Cons.prems fl have q: "quiet m2" and m': "?m' = Fenced"
        and wr: "written_by m l = buf @ [l]"
        and ok: "\<forall>x\<in>set buf. \<not> is_fence_line x \<and> (is_indented x \<or> is_blank x)"
        by (simp_all add: next_mode_def written_by_def pending_def okbuf_def)
      have cont: "blocks_from j' m2' (l # ?R) = []" if "m2' \<noteq> Fenced" for j' m2'
        using quiet_step_fence [OF that fl, of j'] IH [of Fenced "Suc j'"] m' by simp
      from scan_block_lines [OF ok quiet_not_Fenced [OF q], of "l # ?R" j] cont wr
      show ?thesis by simp
    qed
  next
    case nf: False
    show ?thesis
    proof (cases m)
      case Fenced
      with Cons.prems nf have m2: "m2 = Fenced" and m': "?m' = Fenced"
        and wr: "written_by m l = [l]"
        by (simp_all add: next_mode_def written_by_def)
      with IH [of Fenced "Suc j"] nf show ?thesis
        by (simp add: emitted_by_def next_mode_def)
    next
      case Plain
      with Cons.prems have q: "quiet m2" by simp
      show ?thesis
      proof (cases "is_indented l")
        case True
        with Plain nf have m': "?m' = Block i [l]" and wr: "written_by m l = []"
          by (simp_all add: next_mode_def written_by_def)
        from IH [of m2 j] m' q wr show ?thesis by simp
      next
        case False
        with Plain nf have m': "?m' = Plain" and wr: "written_by m l = [l]"
          by (simp_all add: next_mode_def written_by_def)
        from quiet_step_plain [OF q nf False, of j] IH [of "next_mode j m2 l" "Suc j"] m' wr
        show ?thesis by simp
      qed
    next
      case (Block s buf)
      with Cons.prems have q: "quiet m2"
        and ok: "\<forall>x\<in>set buf. \<not> is_fence_line x" by (simp_all add: okbuf_def)
      show ?thesis
      proof (cases "is_indented l \<or> is_blank l")
        case True
        with Block nf have m': "?m' = Block s (buf @ [l])" and wr: "written_by m l = []"
          by (simp_all add: next_mode_def written_by_def)
        from IH [of m2 j] m' q wr show ?thesis by simp
      next
        case False
        with Block nf have m': "?m' = Plain" and wr: "written_by m l = rewrite_buf buf @ [l]"
          by (simp_all add: next_mode_def written_by_def)
        from False have ni: "\<not> is_indented l" by simp
        have cont: "blocks_from j' m2' (l # ?R) = []" if "quiet m2'" for j' m2'
          using quiet_step_plain [OF that nf ni, of j'] IH [of "next_mode j' m2' l" "Suc j'"] m'
          by simp
        from scan_rewrite_buf [OF ok q, of "l # ?R" j] cont wr show ?thesis by simp
      qed
    qed
  qed
qed

lemma rewrite_buf_strips: "strip ` set (rewrite_buf buf) \<subseteq> strip ` set buf \<union> {fence}"
proof -
  have "strip ` set (map unindent_line (pop_trailing_blank buf)) \<subseteq> strip ` set buf"
    using pop_trailing_blank_subset [of buf] by (auto simp: image_iff)
  moreover have "set (drop (length (pop_trailing_blank buf)) buf) \<subseteq> set buf"
    by (rule set_drop_subset)
  ultimately show ?thesis
    by (auto simp: rewrite_buf_def Let_def)
qed

lemma written_by_strips:
  "strip ` set (written_by m l) \<subseteq> strip ` set (pending m) \<union> {strip l} \<union> {fence}"
  using rewrite_buf_strips
  by (cases m) (auto simp: written_by_def pending_def)

lemma pending_step: "set (pending (next_mode i m l)) \<subseteq> set (pending m) \<union> {l}"
  by (cases m) (auto simp: pending_def next_mode_def)

lemma rewrite_from_strips:
  "strip ` set (rewrite_from i m ls) \<subseteq> strip ` set (pending m @ ls) \<union> {fence}"
proof (induction ls arbitrary: i m)
  case Nil
  then show ?case
    using rewrite_buf_strips by (cases m) (auto simp: pending_def)
next
  case (Cons l ls)
  have "strip ` set (rewrite_from (Suc i) (next_mode i m l) ls) \<subseteq>
      strip ` set (pending (next_mode i m l) @ ls) \<union> {fence}" by (rule Cons.IH)
  also have "\<dots> \<subseteq> strip ` set (pending m @ l # ls) \<union> {fence}"
    using pending_step [of i m l] by auto
  finally have "strip ` set (rewrite_from (Suc i) (next_mode i m l) ls) \<subseteq>
      strip ` set (pending m @ l # ls) \<union> {fence}" .
  moreover have "strip ` set (written_by m l) \<subseteq> strip ` set (pending m @ l # ls) \<union> {fence}"
    using written_by_strips [of m l] by auto
  ultimately show ?case by (simp add: image_Un)
qed

lemma rewrite_buf_shaped:
  assumes "strip ` set T \<subseteq> strip ` set ys \<union> {fence}"
  shows "shaped x (bufrest @ ys) (rewrite_buf (x # bufrest) @ T)"
proof (cases "pop_trailing_blank (x # bufrest) = []")
  case True
  with assms show ?thesis by (auto simp: shaped_def rewrite_buf_def)
next
  case False
  then show ?thesis by (simp add: shaped_def rewrite_buf_def Let_def)
qed

lemma rewrite_from_Block_shaped:
  "shaped x (bufrest @ ls) (rewrite_from i (Block s (x # bufrest)) ls)"
proof (induction ls arbitrary: i bufrest)
  case Nil
  from rewrite_buf_shaped [of "[]" "[]" x bufrest] show ?case by simp
next
  case (Cons l ls)
  let ?m = "Block s (x # bufrest)"
  let ?R = "rewrite_from (Suc i) (next_mode i ?m l) ls"
  have R: "strip ` set ?R \<subseteq> strip ` set (pending (next_mode i ?m l) @ ls) \<union> {fence}"
    by (rule rewrite_from_strips)
  show ?case
  proof (cases "is_fence_line l")
    case True
    then have "next_mode i ?m l = Fenced" "written_by ?m l = (x # bufrest) @ [l]"
      by (simp_all add: next_mode_def written_by_def pending_def)
    with R show ?thesis by (auto simp: shaped_def pending_def)
  next
    case nf: False
    show ?thesis
    proof (cases "is_indented l \<or> is_blank l")
      case True
      with nf have "next_mode i ?m l = Block s (x # (bufrest @ [l]))" "written_by ?m l = []"
        by (simp_all add: next_mode_def written_by_def)
      with Cons.IH [of "bufrest @ [l]" "Suc i"] show ?thesis by simp
    next
      case False
      with nf have nm: "next_mode i ?m l = Plain"
        and wr: "written_by ?m l = rewrite_buf (x # bufrest) @ [l]"
        by (simp_all add: next_mode_def written_by_def)
      from R nm have "strip ` set ([l] @ ?R) \<subseteq> strip ` set (l # ls) \<union> {fence}"
        by (auto simp: pending_def)
      from rewrite_buf_shaped [OF this, of x bufrest] wr show ?thesis by simp
    qed
  qed
qed

lemma rewrite_from_Plain_shaped: "shaped x rest (rewrite_from i Plain (x # rest))"
proof -
  let ?R = "rewrite_from (Suc i) (next_mode i Plain x) rest"
  have R: "strip ` set ?R \<subseteq> strip ` set (pending (next_mode i Plain x) @ rest) \<union> {fence}"
    by (rule rewrite_from_strips)
  show ?thesis
  proof (cases "\<not> is_fence_line x \<and> is_indented x")
    case True
    then have "next_mode i Plain x = Block i [x]" "written_by Plain x = []"
      by (simp_all add: next_mode_def written_by_def)
    with rewrite_from_Block_shaped [of x "[]" rest "Suc i" i] show ?thesis by simp
  next
    case False
    then have "written_by Plain x = [x]" "pending (next_mode i Plain x) = []"
      by (auto simp: next_mode_def written_by_def pending_def)
    with R show ?thesis by (simp add: shaped_def)
  qed
qed

lemma fence_not_delim: "fence \<noteq> str ''+++''" "fence \<noteq> str ''---''"
  by (simp_all add: fence_def str_def)

lemma frontmatter_Cons_None:
  "frontmatter_of_lines (x # r) = None \<longleftrightarrow>
     (strip x = str ''+++'' \<longrightarrow> find_closing (str ''+++'') 1 r = None) \<and>
     (strip x \<noteq> str ''+++'' \<and> strip x = str ''---'' \<longrightarrow> find_closing (str ''---'') 1 r = None)"
  by (simp add: frontmatter_of_lines_def split: option.splits)

lemma frontmatter_Cons_Some:
  "frontmatter_of_lines (x # r) = Some (a, b) \<longleftrightarrow>
     a = 0 \<and>
     ((strip x = str ''+++'' \<and> find_closing (str ''+++'') 1 r = Some b) \<or>
      (strip x \<noteq> str ''+++'' \<and> strip x = str ''---'' \<and> find_closing (str ''---'') 1 r = Some b))"
  by (simp add: frontmatter_of_lines_def split: option.splits)

lemma find_closing_prefix:
  "find_closing d i rest = Some k \<Longrightarrow> find_closing d i (take (Suc (k - i)) rest @ R) = Some k"
proof (induction rest arbitrary: i)
  case Nil
  then show ?case by simp
next
  case (Cons line rest)
  show ?case
  proof (cases "strip line = d")
    case True
    with Cons.prems show ?thesis by simp
  next
    case False
    with Cons.prems have fc: "find_closing d (Suc i) rest = Some k" by simp
    from find_closing_SomeD [OF fc] have "Suc i \<le> k" by auto
    then have "k - i = Suc (k - Suc i)" by arith
    with Cons.IH [OF fc] False show ?thesis by simp
  qed
qed

lemma frontmatter_Some_prefix:
  assumes "frontmatter_of_lines L = Some (a, b)"
  shows "frontmatter_of_lines (take (Suc b) L @ R) = Some (a, b)"
proof -
  from assms obtain first rest where L: "L = first # rest"
    by (cases L) (simp_all add: frontmatter_of_lines_def)
  have pre: "find_closing d 1 (take b rest @ R) = Some b" if "find_closing d 1 rest = Some b" for d
  proof -
    from find_closing_SomeD [OF that] have "1 \<le> b" by auto
    then have "Suc (b - 1) = b" by arith
    with find_closing_prefix [OF that, of R] show ?thesis by simp
  qed
  have eq: "take (Suc b) L @ R = first # (take b rest @ R)" by (simp add: L)
  from assms [unfolded L frontmatter_Cons_Some]
  consider (plus) "a = 0" "strip first = str ''+++''" "find_closing (str ''+++'') 1 rest = Some b"
    | (minus) "a = 0" "strip first \<noteq> str ''+++''" "strip first = str ''---''"
        "find_closing (str ''---'') 1 rest = Some b" by blast
  then show ?thesis
  proof cases
    case plus
    from pre [OF plus(3)] plus(1,2) show ?thesis unfolding eq frontmatter_Cons_Some by blast
  next
    case minus
    from pre [OF minus(4)] minus(1,2,3) show ?thesis unfolding eq frontmatter_Cons_Some by blast
  qed
qed

lemma find_closing_None_strips:
  assumes "find_closing d i rest = None" "d \<noteq> fence"
    "strip ` set T \<subseteq> strip ` set rest \<union> {fence}"
  shows "find_closing d j T = None"
proof -
  from assms(1) have r: "\<forall>l\<in>set rest. strip l \<noteq> d" by (simp add: find_closing_None_iff)
  have "\<forall>l\<in>set T. strip l \<noteq> d"
  proof
    fix l assume "l \<in> set T"
    then have "strip l \<in> strip ` set rest \<union> {fence}" using assms(3) by auto
    then show "strip l \<noteq> d" using r assms(2) by auto
  qed
  then show ?thesis by (simp add: find_closing_None_iff)
qed

lemma frontmatter_fence_first: "frontmatter_of_lines (fence # T) = None"
proof -
  have "strip fence \<noteq> str ''+++''" "strip fence \<noteq> str ''---''"
    using fence_not_delim by simp_all
  then show ?thesis by (simp add: frontmatter_of_lines_def)
qed

lemma frontmatter_None_same_first:
  assumes "frontmatter_of_lines (x # rest) = None"
    "strip ` set T \<subseteq> strip ` set rest \<union> {fence}"
  shows "frontmatter_of_lines (x # T) = None"
proof -
  have p: "find_closing (str ''+++'') 1 T = None" if "strip x = str ''+++''"
  proof -
    from assms(1) that have "find_closing (str ''+++'') 1 rest = None"
      by (simp add: frontmatter_Cons_None)
    moreover have "str ''+++'' \<noteq> fence" using fence_not_delim(1) by (rule not_sym)
    ultimately show ?thesis using assms(2) by (rule find_closing_None_strips)
  qed
  have m: "find_closing (str ''---'') 1 T = None"
    if "strip x \<noteq> str ''+++''" "strip x = str ''---''"
  proof -
    from assms(1) that have "find_closing (str ''---'') 1 rest = None"
      by (simp add: frontmatter_Cons_None)
    moreover have "str ''---'' \<noteq> fence" using fence_not_delim(2) by (rule not_sym)
    ultimately show ?thesis using assms(2) by (rule find_closing_None_strips)
  qed
  show ?thesis
    unfolding frontmatter_Cons_None
  proof (intro conjI impI)
    assume "strip x = str ''+++''"
    then show "find_closing (str ''+++'') 1 T = None" by (rule p)
  next
    assume "strip x \<noteq> str ''+++'' \<and> strip x = str ''---''"
    then show "find_closing (str ''---'') 1 T = None" using m by blast
  qed
qed

lemma frontmatter_None_shaped:
  assumes "frontmatter_of_lines (x # rest) = None" "shaped x rest out"
  shows "frontmatter_of_lines out = None"
proof -
  from assms(2) have "(\<exists>T. out = fence # T) \<or>
     (\<exists>T. out = x # T \<and> strip ` set T \<subseteq> strip ` set rest \<union> {fence})"
    by (simp only: shaped_def)
  then show ?thesis
  proof
    assume "\<exists>T. out = fence # T"
    then obtain T where "out = fence # T" ..
    then show ?thesis by (simp only: frontmatter_fence_first)
  next
    assume "\<exists>T. out = x # T \<and> strip ` set T \<subseteq> strip ` set rest \<union> {fence}"
    then obtain T where o: "out = x # T" and s: "strip ` set T \<subseteq> strip ` set rest \<union> {fence}"
      by blast
    from frontmatter_None_same_first [OF assms(1) s] o show ?thesis by (simp only:)
  qed
qed

section \<open>Converting the output again\<close>

lemma convert_no_blocks:
  "detect_indented_code_blocks c = [] \<Longrightarrow> convert_to_fenced_blocks c = c"
  by (simp add: convert_to_fenced_blocks_def)

lemma split_convert_rewrite:
  "split_nl (convert_to_fenced_blocks content) =
     take (skip_of (detect_frontmatter_boundaries content)) (split_nl content) @
     rewrite_from (skip_of (detect_frontmatter_boundaries content)) Plain
       (drop (skip_of (detect_frontmatter_boundaries content)) (split_nl content))"
proof -
  let ?L = "split_nl content"
  let ?k = "skip_of (detect_frontmatter_boundaries content)"
  have "apply_blocks (blocks_from ?k Plain (drop ?k ?L)) (take ?k ?L @ pending Plain @ drop ?k ?L) =
      take ?k ?L @ rewrite_from ?k Plain (drop ?k ?L)"
  proof (rule apply_blocks_rewrite)
    show "wf_mode ?k Plain" by (simp add: wf_mode_def)
    show "length (take ?k ?L) = lower ?k Plain" using skip_of_le [of content] by (simp add: lower_def)
    show "\<forall>l\<in>set (pending Plain @ drop ?k ?L). NL \<notin> set l"
      by (auto simp: pending_def dest: in_set_dropD split_nl_lines_no_NL)
  qed
  then show ?thesis by (simp add: split_convert detect_blocks pending_def)
qed

lemma frontmatter_convert:
  "detect_frontmatter_boundaries (convert_to_fenced_blocks content) =
     detect_frontmatter_boundaries content"
proof (cases "detect_frontmatter_boundaries content")
  case None
  obtain x rest where L: "split_nl content = x # rest" by (cases "split_nl content") auto
  from None have k: "skip_of (detect_frontmatter_boundaries content) = 0"
    by (simp add: skip_of_def)
  have out: "split_nl (convert_to_fenced_blocks content) = rewrite_from 0 Plain (x # rest)"
    using split_convert_rewrite [of content] by (simp add: k L)
  from None L have "frontmatter_of_lines (x # rest) = None"
    by (simp add: detect_frontmatter_boundaries_def)
  from frontmatter_None_shaped [OF this rewrite_from_Plain_shaped] out None show ?thesis
    by (simp add: detect_frontmatter_boundaries_def)
next
  case (Some p)
  obtain a b where p: "p = (a, b)" by (cases p)
  from Some p have k: "skip_of (detect_frontmatter_boundaries content) = Suc b"
    by (simp add: skip_of_def)
  from Some p have fm: "frontmatter_of_lines (split_nl content) = Some (a, b)"
    by (simp add: detect_frontmatter_boundaries_def)
  have out: "split_nl (convert_to_fenced_blocks content) =
      take (Suc b) (split_nl content) @ rewrite_from (Suc b) Plain (drop (Suc b) (split_nl content))"
    using split_convert_rewrite [of content] by (simp only: k)
  have "frontmatter_of_lines (split_nl (convert_to_fenced_blocks content)) = Some (a, b)"
    by (simp only: out frontmatter_Some_prefix [OF fm])
  with Some p show ?thesis by (simp add: detect_frontmatter_boundaries_def)
qed

lemma detect_convert: "detect_indented_code_blocks (convert_to_fenced_blocks content) = []"
proof -
  let ?L = "split_nl content"
  let ?k = "skip_of (detect_frontmatter_boundaries content)"
  let ?R = "rewrite_from ?k Plain (drop ?k ?L)"
  have "length (take ?k ?L) = ?k" using skip_of_le [of content] by simp
  then have "drop ?k (take ?k ?L @ ?R) = ?R" by (metis append_eq_conv_conj)
  then have "detect_indented_code_blocks (convert_to_fenced_blocks content) =
      blocks_from ?k Plain ?R"
    by (simp add: detect_blocks frontmatter_convert split_convert_rewrite)
  also have "\<dots> = []"
    by (rule scan_rewritten) (simp_all add: okbuf_def quiet_def)
  finally show ?thesis .
qed

text \<open>The definitions unfolded to run the converter on a concrete document.\<close>

lemmas eval_defs =
  str_def NL_def TAB_def strip_def is_space_def startswith_def fence_def
  is_fence_line_def is_indented_def is_blank_def
  detect_frontmatter_boundaries_def frontmatter_of_lines_def
  detect_indented_code_blocks_def scan_lines_def scan_line_def in_frontmatter_def
  initial_state_def close_block_def finish_def pop_trailing_blank_eq
  unindent_line_def unindent_code_def fenced_block_def assign_slice_def replace_block_def
  convert_to_fenced_blocks_def Let_def

section \<open>The frontmatter detector\<close>

text \<open>
  Claim C8, as amended. \<open>detect_frontmatter_boundaries\<close> returns the span \<open>(0, b)\<close> exactly
  when line 0, with leading and trailing white space stripped, is \<open>+++\<close> or \<open>---\<close>, line
  \<open>b\<close> is a later line that strips to the same delimiter, and no line strictly between
  them does: the first closing line ends the block and the lines between are not looked at
  for anything else. In every other case, an opening delimiter without a closing line
  included, the result is the sentinel \<open>None\<close>; no input raises an error. The comparison is
  on the stripped line, so the delimiter lines need not be exactly \<open>+++\<close> or \<open>---\<close>.
\<close>

theorem frontmatter_boundaries_characterised:
  "detect_frontmatter_boundaries content = Some (a, b) \<longleftrightarrow>
     a = 0 \<and> 0 < b \<and> b < length (split_nl content) \<and>
     (strip (split_nl content ! 0) = str ''+++'' \<or> strip (split_nl content ! 0) = str ''---'') \<and>
     strip (split_nl content ! b) = strip (split_nl content ! 0) \<and>
     (\<forall>j. 0 < j \<and> j < b \<longrightarrow> strip (split_nl content ! j) \<noteq> strip (split_nl content ! 0))"
  by (rule frontmatter_span_iff)

theorem frontmatter_boundaries_characterised_witness:
  "detect_frontmatter_boundaries (str '' +++\<newline>key\<newline>  +++\<newline>+++'') = Some (0, 2) \<and>
   strip (split_nl (str '' +++\<newline>key\<newline>  +++\<newline>+++'') ! 2) = str ''+++'' \<and>
   detect_frontmatter_boundaries (str ''+++\<newline>key'') = None"
proof -
  have a: "detect_frontmatter_boundaries (str '' +++\<newline>key\<newline>  +++\<newline>+++'') = Some (0, 2)"
    by (simp add: eval_defs)
  have b: "strip (split_nl (str '' +++\<newline>key\<newline>  +++\<newline>+++'') ! 0) = str ''+++''"
    by (simp add: eval_defs)
  have c: "detect_frontmatter_boundaries (str ''+++\<newline>key'') = None"
    by (simp add: eval_defs)
  from frontmatter_boundaries_characterised [THEN iffD1, OF a] b c a show ?thesis by simp
qed

text \<open>
  Claim C8 as stated asks line 0 to be exactly \<open>+++\<close> or \<open>---\<close>. A first line with a
  leading blank is neither, and a span is returned all the same.
\<close>

theorem frontmatter_exact_delimiter_counterexample:
  "detect_frontmatter_boundaries (str '' +++\<newline>+++'') = Some (0, 1) \<and>
   split_nl (str '' +++\<newline>+++'') ! 0 \<noteq> str ''+++'' \<and>
   split_nl (str '' +++\<newline>+++'') ! 0 \<noteq> str ''---''"
  by (simp add: eval_defs)

section \<open>The unindenter\<close>

text \<open>
  Claim C5. \<open>unindent_code\<close> keeps the number of lines and treats every line on its own:
  a line that starts with four spaces loses exactly these four characters; otherwise a
  line that starts with a tab loses exactly this tab; otherwise the line is unchanged.
  Whatever follows the removed prefix, deeper indentation included, is kept.
\<close>

theorem unindent_code_per_line:
  "length (split_nl (unindent_code s)) = length (split_nl s) \<and>
   (\<forall>i<length (split_nl s).
      (startswith (split_nl s ! i) (str ''    '') \<longrightarrow>
         split_nl s ! i = str ''    '' @ split_nl (unindent_code s) ! i) \<and>
      (\<not> startswith (split_nl s ! i) (str ''    '') \<and> startswith (split_nl s ! i) [TAB] \<longrightarrow>
         split_nl s ! i = TAB # split_nl (unindent_code s) ! i) \<and>
      (\<not> startswith (split_nl s ! i) (str ''    '') \<and> \<not> startswith (split_nl s ! i) [TAB] \<longrightarrow>
         split_nl (unindent_code s) ! i = split_nl s ! i))"
  using unindent_line_cases by (simp add: split_unindent_code)

theorem unindent_code_per_line_witness:
  "unindent_code (str ''    a\<newline>        b\<newline>  c'' @ [NL, TAB, TAB, 100]) =
     str ''a\<newline>    b\<newline>  c'' @ [NL, TAB, 100] \<and>
   length (split_nl (unindent_code (str ''    a\<newline>        b\<newline>  c'' @ [NL, TAB, TAB, 100]))) = 4 \<and>
   split_nl (str ''    a\<newline>        b\<newline>  c'' @ [NL, TAB, TAB, 100]) ! 1 =
     str ''    '' @ split_nl (unindent_code (str ''    a\<newline>        b\<newline>  c'' @ [NL, TAB, TAB, 100])) ! 1 \<and>
   split_nl (str ''    a\<newline>        b\<newline>  c'' @ [NL, TAB, TAB, 100]) ! 3 =
     TAB # split_nl (unindent_code (str ''    a\<newline>        b\<newline>  c'' @ [NL, TAB, TAB, 100])) ! 3 \<and>
   split_nl (unindent_code (str ''    a\<newline>        b\<newline>  c'' @ [NL, TAB, TAB, 100])) ! 2 =
     split_nl (str ''    a\<newline>        b\<newline>  c'' @ [NL, TAB, TAB, 100]) ! 2"
proof -
  let ?s = "str ''    a\<newline>        b\<newline>  c'' @ [NL, TAB, TAB, 100]"
  have len: "length (split_nl ?s) = 4" by (simp add: eval_defs)
  have val: "unindent_code ?s = str ''a\<newline>    b\<newline>  c'' @ [NL, TAB, 100]"
    by (simp add: eval_defs)
  have l1: "startswith (split_nl ?s ! 1) (str ''    '')" by (simp add: eval_defs)
  have l3: "\<not> startswith (split_nl ?s ! 3) (str ''    '') \<and> startswith (split_nl ?s ! 3) [TAB]"
    by (simp add: eval_defs)
  have l2: "\<not> startswith (split_nl ?s ! 2) (str ''    '') \<and> \<not> startswith (split_nl ?s ! 2) [TAB]"
    by (simp add: eval_defs)
  note per = unindent_code_per_line [of ?s, THEN conjunct2, rule_format]
  have i1: "1 < length (split_nl ?s)" and i2: "2 < length (split_nl ?s)"
    and i3: "3 < length (split_nl ?s)" by (simp_all add: len)
  have a: "length (split_nl (unindent_code ?s)) = 4"
    using unindent_code_per_line [of ?s, THEN conjunct1] by (simp only: len)
  have b: "split_nl ?s ! 1 = str ''    '' @ split_nl (unindent_code ?s) ! 1"
    by (rule per [OF i1, THEN conjunct1, THEN mp, OF l1])
  have c: "split_nl ?s ! 3 = TAB # split_nl (unindent_code ?s) ! 3"
    by (rule per [OF i3, THEN conjunct2, THEN conjunct1, THEN mp, OF l3])
  have d: "split_nl (unindent_code ?s) ! 2 = split_nl ?s ! 2"
    by (rule per [OF i2, THEN conjunct2, THEN conjunct2, THEN mp, OF l2])
  from val a b c d show ?thesis by (simp only:)
qed

section \<open>The block scanner: what it detects\<close>

text \<open>
  Claim C7. The spans returned by \<open>detect_indented_code_blocks\<close> are strictly increasing in
  their start line; every span has its start no later than its end and lies inside the
  document; every span ends before the next one starts, so no two overlap; and no line of
  a span is in the detected frontmatter range or is a line at which the fence state is
  true, neither when the scanner reaches the line nor once it has read it.
\<close>

theorem detected_spans_ordered:
  "sorted_wrt (\<lambda>x y. fst x < fst y) (detect_indented_code_blocks content) \<and>
   sorted_wrt (\<lambda>x y. fst (snd x) < fst y) (detect_indented_code_blocks content) \<and>
   (\<forall>(a, b, c) \<in> set (detect_indented_code_blocks content).
      a \<le> b \<and> b < length (split_nl content) \<and>
      (\<forall>j. a \<le> j \<and> j \<le> b \<longrightarrow>
         \<not> in_frontmatter (detect_frontmatter_boundaries content) j \<and>
         \<not> in_fenced_block (state_before content j) \<and>
         \<not> in_fenced_block (state_before content (Suc j))))"
proof -
  let ?bs = "detect_indented_code_blocks content"
  have s2: "sorted_wrt (\<lambda>x y. fst (snd x) < fst y) ?bs"
    unfolding detect_blocks by (rule blocks_from_sorted [OF tracks_start refl])
  have le: "fst x \<le> fst (snd x)" if "x \<in> set ?bs" for x
  proof -
    obtain a b c where x: "x = (a, b, c)" by (cases x)
    with that detected_block [of a b c content] show ?thesis by simp
  qed
  have s1: "sorted_wrt (\<lambda>x y. fst x < fst y) ?bs"
  proof (rule sorted_wrt_mono_rel [OF _ s2])
    fix x y assume "x \<in> set ?bs" "fst (snd x) < fst y"
    with le [of x] show "fst x < fst y" by simp
  qed
  have each: "a \<le> b \<and> b < length (split_nl content) \<and>
      (\<forall>j. a \<le> j \<and> j \<le> b \<longrightarrow>
         \<not> in_frontmatter (detect_frontmatter_boundaries content) j \<and>
         \<not> in_fenced_block (state_before content j) \<and>
         \<not> in_fenced_block (state_before content (Suc j)))"
    if mem: "(a, b, c) \<in> set ?bs" for a b c
  proof -
    from detected_block [OF mem]
    have k: "skip_of (detect_frontmatter_boundaries content) \<le> a" and ab: "a \<le> b"
      and bl: "b < length (split_nl content)" by simp_all
    have "\<not> in_frontmatter (detect_frontmatter_boundaries content) j \<and>
         \<not> in_fenced_block (state_before content j) \<and>
         \<not> in_fenced_block (state_before content (Suc j))" if "a \<le> j \<and> j \<le> b" for j
      using that k detected_not_fenced_before [OF mem, of j]
        detected_not_fenced_after [OF mem, of j]
      by (simp add: in_frontmatter_skip)
    with ab bl show ?thesis by blast
  qed
  from s1 s2 each show ?thesis by blast
qed

theorem detected_spans_ordered_witness:
  "detect_indented_code_blocks
     (str ''---\<newline>    t\<newline>---\<newline>    a\<newline>\<newline>    b\<newline>x\<newline>```\<newline>    y\<newline>```\<newline>    z'') =
     [(3, 5, str ''    a\<newline>\<newline>    b''), (10, 10, str ''    z'')] \<and>
   \<not> in_fenced_block (state_before
     (str ''---\<newline>    t\<newline>---\<newline>    a\<newline>\<newline>    b\<newline>x\<newline>```\<newline>    y\<newline>```\<newline>    z'') 4) \<and>
   \<not> in_frontmatter (detect_frontmatter_boundaries
     (str ''---\<newline>    t\<newline>---\<newline>    a\<newline>\<newline>    b\<newline>x\<newline>```\<newline>    y\<newline>```\<newline>    z'')) 4"
proof -
  let ?d = "str ''---\<newline>    t\<newline>---\<newline>    a\<newline>\<newline>    b\<newline>x\<newline>```\<newline>    y\<newline>```\<newline>    z''"
  have v: "detect_indented_code_blocks ?d =
      [(3, 5, str ''    a\<newline>\<newline>    b''), (10, 10, str ''    z'')]"
    by (simp add: eval_defs)
  then have mem: "(3, 5, str ''    a\<newline>\<newline>    b'') \<in> set (detect_indented_code_blocks ?d)"
    by simp
  from detected_spans_ordered [of ?d] mem
  have "\<forall>j. 3 \<le> j \<and> j \<le> 5 \<longrightarrow>
         \<not> in_frontmatter (detect_frontmatter_boundaries ?d) j \<and>
         \<not> in_fenced_block (state_before ?d j) \<and>
         \<not> in_fenced_block (state_before ?d (Suc j))" by blast
  then have "\<not> in_frontmatter (detect_frontmatter_boundaries ?d) 4 \<and>
         \<not> in_fenced_block (state_before ?d 4)" by simp
  with v show ?thesis by simp
qed

text \<open>
  Claim C6. When the scanner reaches a fence line (a line whose stripped content begins
  with three backticks) outside the frontmatter while a block that started at line \<open>s\<close>
  is being accumulated, the fence state toggles, the accumulator is reset and no block is
  emitted by this step; and no span of the final result touches the lines from \<open>s\<close> up
  to the fence line.
\<close>

theorem fence_discards_open_block:
  assumes "i < length (split_nl content)"
    and "\<not> in_frontmatter (detect_frontmatter_boundaries content) i"
    and "is_fence_line (split_nl content ! i)"
    and "current_block_start (state_before content i) = Some s"
  shows "in_fenced_block (state_before content (Suc i)) =
           (\<not> in_fenced_block (state_before content i)) \<and>
         current_block_start (state_before content (Suc i)) = None \<and>
         current_block_lines (state_before content (Suc i)) = [] \<and>
         code_blocks (state_before content (Suc i)) = code_blocks (state_before content i) \<and>
         (\<forall>(a, b, c) \<in> set (detect_indented_code_blocks content). b < s \<or> i < a)"
proof -
  let ?L = "split_nl content"
  let ?k = "skip_of (detect_frontmatter_boundaries content)"
  have st: "in_fenced_block (state_before content (Suc i)) =
           (\<not> in_fenced_block (state_before content i)) \<and>
         current_block_start (state_before content (Suc i)) = None \<and>
         current_block_lines (state_before content (Suc i)) = [] \<and>
         code_blocks (state_before content (Suc i)) = code_blocks (state_before content i)"
    using assms(2,3,4) by (simp add: state_before_Suc [OF assms(1)] scan_line_def)
  from state_before_wf [of content i] assms(4)
  have "mode_of (state_before content i) = Block s (current_block_lines (state_before content i))"
    by (auto simp: wf_state_def mode_of_def)
  then have ma: "mode_after ?k Plain (take (i - ?k) (drop ?k ?L)) =
      Block s (current_block_lines (state_before content i))"
    by (simp add: state_before_mode)
  from assms(2) have k: "?k \<le> i" by (simp add: in_frontmatter_skip)
  have "b < s \<or> i < a" if "(a, b, c) \<in> set (detect_indented_code_blocks content)" for a b c
  proof -
    from that have mem: "(a, b, c) \<in> set (blocks_from ?k Plain (drop ?k ?L))"
      by (simp add: detect_blocks)
    from blocks_from_discard [OF tracks_start refl k assms(1) ma assms(3) mem] show ?thesis .
  qed
  with st show ?thesis by blast
qed

theorem fence_discards_open_block_witness:
  "current_block_start (state_before (str ''    a\<newline>```\<newline>b\<newline>```\<newline>    c'') 1) = Some 0 \<and>
   is_fence_line (split_nl (str ''    a\<newline>```\<newline>b\<newline>```\<newline>    c'') ! 1) \<and>
   in_fenced_block (state_before (str ''    a\<newline>```\<newline>b\<newline>```\<newline>    c'') 2) \<and>
   current_block_start (state_before (str ''    a\<newline>```\<newline>b\<newline>```\<newline>    c'') 2) = None \<and>
   detect_indented_code_blocks (str ''    a\<newline>```\<newline>b\<newline>```\<newline>    c'') = [(4, 4, str ''    c'')]"
proof -
  let ?d = "str ''    a\<newline>```\<newline>b\<newline>```\<newline>    c''"
  have h1: "1 < length (split_nl ?d)" by (simp add: eval_defs)
  have h2: "\<not> in_frontmatter (detect_frontmatter_boundaries ?d) 1" by (simp add: eval_defs)
  have h3: "is_fence_line (split_nl ?d ! 1)" by (simp add: eval_defs)
  have h4: "current_block_start (state_before ?d 1) = Some 0"
    by (simp add: eval_defs state_before_def)
  have h5: "\<not> in_fenced_block (state_before ?d 1)"
    by (simp add: eval_defs state_before_def)
  have v: "detect_indented_code_blocks ?d = [(4, 4, str ''    c'')]" by (simp add: eval_defs)
  from fence_discards_open_block [OF h1 h2 h3 h4] h3 h4 h5 v show ?thesis
    by (simp add: numeral_2_eq_2)
qed

text \<open>
  Claim C9, as amended. A line that does not start with four spaces or a tab, a blank
  line without such a prefix in particular, never starts a block: read while no block is
  being accumulated it leaves the accumulator closed and emits nothing. Every emitted span
  begins with a line that starts with four spaces or a tab (such a line may itself be
  blank), ends with a line that is not blank, trailing blank lines being trimmed before
  emission, and holds only lines that are indented or blank. A document of blank lines
  only yields no span.
\<close>

theorem blank_lines_in_blocks:
  "(\<not> is_indented l \<and> current_block_start st = None \<longrightarrow>
      current_block_start (scan_line fm st (i, l)) = None \<and>
      code_blocks (scan_line fm st (i, l)) = code_blocks st) \<and>
   (\<forall>(a, b, c) \<in> set (detect_indented_code_blocks content).
      is_indented (split_nl content ! a) \<and> \<not> is_blank (split_nl content ! b) \<and>
      (\<forall>j. a \<le> j \<and> j \<le> b \<longrightarrow>
         is_indented (split_nl content ! j) \<or> is_blank (split_nl content ! j))) \<and>
   ((\<forall>l\<in>set (split_nl content). is_blank l) \<longrightarrow> detect_indented_code_blocks content = [])"
proof -
  have step: "current_block_start (scan_line fm st (i, l)) = None \<and>
      code_blocks (scan_line fm st (i, l)) = code_blocks st"
    if "\<not> is_indented l \<and> current_block_start st = None"
    using that by (simp add: scan_line_def)
  have each: "is_indented (split_nl content ! a) \<and> \<not> is_blank (split_nl content ! b) \<and>
      (\<forall>j. a \<le> j \<and> j \<le> b \<longrightarrow>
         is_indented (split_nl content ! j) \<or> is_blank (split_nl content ! j))"
    if "(a, b, c) \<in> set (detect_indented_code_blocks content)" for a b c
    using detected_block [OF that] by blast
  have none: "detect_indented_code_blocks content = []"
    if all: "\<forall>l\<in>set (split_nl content). is_blank l"
  proof (rule ccontr)
    assume "detect_indented_code_blocks content \<noteq> []"
    then obtain x where "x \<in> set (detect_indented_code_blocks content)"
      by (cases "detect_indented_code_blocks content") auto
    moreover obtain a b c where "x = (a, b, c)" by (cases x)
    ultimately have mem: "(a, b, c) \<in> set (detect_indented_code_blocks content)" by simp
    from detected_block [OF mem] have "b < length (split_nl content)"
      "\<not> is_blank (split_nl content ! b)" by simp_all
    with all show False by (meson nth_mem)
  qed
  from step each none show ?thesis by blast
qed

theorem blank_lines_in_blocks_witness:
  "detect_indented_code_blocks (str ''    a\<newline>\<newline>    b\<newline>\<newline>x'') =
     [(0, 2, str ''    a\<newline>\<newline>    b'')] \<and>
   is_indented (split_nl (str ''    a\<newline>\<newline>    b\<newline>\<newline>x'') ! 0) \<and>
   \<not> is_blank (split_nl (str ''    a\<newline>\<newline>    b\<newline>\<newline>x'') ! 2) \<and>
   list_all is_blank (split_nl (str ''\<newline>  \<newline>'')) \<and>
   detect_indented_code_blocks (str ''\<newline>  \<newline>'') = [] \<and>
   current_block_start (scan_line None initial_state (0, [])) = None"
proof -
  let ?d = "str ''    a\<newline>\<newline>    b\<newline>\<newline>x''"
  let ?e = "str ''\<newline>  \<newline>''"
  have v: "detect_indented_code_blocks ?d = [(0, 2, str ''    a\<newline>\<newline>    b'')]"
    by (simp add: eval_defs)
  then have mem: "(0, 2, str ''    a\<newline>\<newline>    b'') \<in> set (detect_indented_code_blocks ?d)"
    by simp
  from blank_lines_in_blocks [of "[]" initial_state None 0 ?d] mem
  have a: "is_indented (split_nl ?d ! 0) \<and> \<not> is_blank (split_nl ?d ! 2)" by blast
  have h: "\<forall>l\<in>set (split_nl ?e). is_blank l" by (simp add: eval_defs)
  from blank_lines_in_blocks [of "[]" initial_state None 0 ?e] h
  have b: "detect_indented_code_blocks ?e = []" by blast
  have h2: "\<not> is_indented [] \<and> current_block_start initial_state = None"
    by (simp add: eval_defs)
  from blank_lines_in_blocks [of "[]" initial_state None 0 ?e] h2
  have c: "current_block_start (scan_line None initial_state (0, [])) = None" by blast
  from h have "list_all is_blank (split_nl ?e)" by (simp add: list_all_iff)
  with v a b c show ?thesis by simp
qed

text \<open>
  Claim C9 as stated says that a blank line never starts a block and that every span
  begins with a non-blank line. A line of four spaces is blank and is indented: it starts
  a block, and the span found in the two-line document below begins with it.
\<close>

theorem blank_line_starts_block_counterexample:
  "is_blank (str ''    '') \<and>
   current_block_start initial_state = None \<and>
   current_block_start (scan_line None initial_state (0, str ''    '')) = Some 0 \<and>
   detect_indented_code_blocks (str ''    \<newline>    x'') = [(0, 1, str ''    \<newline>    x'')] \<and>
   is_blank (split_nl (str ''    \<newline>    x'') ! 0)"
  by (simp add: eval_defs)

section \<open>The rewriter\<close>

text \<open>
  Claim C2. A document in which \<open>detect_indented_code_blocks\<close> finds no span is returned
  unchanged by \<open>convert_to_fenced_blocks\<close>. This holds in particular for every document
  without a line that starts with four spaces or a tab, whether it has frontmatter or not,
  and for the empty document. The functions are total: no input raises an error.
\<close>

theorem no_spans_unchanged:
  "(detect_indented_code_blocks content = [] \<longrightarrow> convert_to_fenced_blocks content = content) \<and>
   ((\<forall>l\<in>set (split_nl content). \<not> is_indented l) \<longrightarrow>
      detect_indented_code_blocks content = [] \<and> convert_to_fenced_blocks content = content) \<and>
   detect_indented_code_blocks [] = [] \<and> convert_to_fenced_blocks [] = []"
proof -
  have a: "convert_to_fenced_blocks c = c" if "detect_indented_code_blocks c = []" for c
    using that by (simp add: convert_to_fenced_blocks_def)
  have b: "detect_indented_code_blocks [] = []"
    by (rule no_indented_no_blocks) (simp add: is_indented_def startswith_def str_def)
  from a b no_indented_no_blocks [of content] show ?thesis by blast
qed

theorem no_spans_unchanged_witness:
  "detect_indented_code_blocks (str ''# T\<newline>\<newline>```\<newline>    a\<newline>```\<newline> b'') = [] \<and>
   convert_to_fenced_blocks (str ''# T\<newline>\<newline>```\<newline>    a\<newline>```\<newline> b'') =
     str ''# T\<newline>\<newline>```\<newline>    a\<newline>```\<newline> b'' \<and>
   list_all (\<lambda>l. \<not> is_indented l) (split_nl (str ''x\<newline>\<newline>  y'')) \<and>
   convert_to_fenced_blocks (str ''x\<newline>\<newline>  y'') = str ''x\<newline>\<newline>  y''"
proof -
  let ?d = "str ''# T\<newline>\<newline>```\<newline>    a\<newline>```\<newline> b''"
  let ?e = "str ''x\<newline>\<newline>  y''"
  have h1: "detect_indented_code_blocks ?d = []" by (simp add: eval_defs)
  have h2: "\<forall>l\<in>set (split_nl ?e). \<not> is_indented l" by (simp add: eval_defs)
  from no_spans_unchanged [of ?d] h1 have c1: "convert_to_fenced_blocks ?d = ?d" by blast
  from no_spans_unchanged [of ?e] h2 have c2: "convert_to_fenced_blocks ?e = ?e" by blast
  from h2 have "list_all (\<lambda>l. \<not> is_indented l) (split_nl ?e)" by (simp add: list_all_iff)
  with h1 c1 c2 show ?thesis by simp
qed

text \<open>
  Claim C3. When the document begins with a frontmatter block that
  \<open>detect_frontmatter_boundaries\<close> finds, from line 0 to line \<open>fm_end\<close>, the output of
  \<open>convert_to_fenced_blocks\<close> has the same lines at the positions 0 to \<open>fm_end\<close>, whatever
  their indentation.
\<close>

theorem frontmatter_lines_preserved:
  assumes "detect_frontmatter_boundaries content = Some (fm_start, fm_end)"
  shows "fm_start = 0 \<and> fm_end < length (split_nl content) \<and>
         fm_end < length (split_nl (convert_to_fenced_blocks content)) \<and>
         take (Suc fm_end) (split_nl (convert_to_fenced_blocks content)) =
           take (Suc fm_end) (split_nl content) \<and>
         (\<forall>i. fm_start \<le> i \<and> i \<le> fm_end \<longrightarrow>
            split_nl (convert_to_fenced_blocks content) ! i = split_nl content ! i)"
proof -
  let ?L = "split_nl content"
  let ?bs = "detect_indented_code_blocks content"
  from assms frontmatter_span_iff [of content fm_start fm_end]
  have z: "fm_start = 0" and l: "fm_end < length ?L" by simp_all
  have k: "skip_of (detect_frontmatter_boundaries content) = Suc fm_end"
    using assms by (simp add: skip_of_def)
  have "\<forall>(a, b, c)\<in>set ?bs. Suc fm_end \<le> a"
    using detected_block [of _ _ _ content] k by auto
  with detected_fits have tk: "take (Suc fm_end) (apply_blocks ?bs ?L) = take (Suc fm_end) ?L"
    by (rule apply_blocks_prefix)
  have len: "length (apply_blocks ?bs ?L) = length ?L + 2 * length ?bs"
    by (rule apply_blocks_length [OF detected_fits])
  have "apply_blocks ?bs ?L ! i = ?L ! i" if "i \<le> fm_end" for i
  proof -
    from that have "i < Suc fm_end" by simp
    then have "apply_blocks ?bs ?L ! i = take (Suc fm_end) (apply_blocks ?bs ?L) ! i" by simp
    also have "\<dots> = take (Suc fm_end) ?L ! i" by (simp only: tk)
    also have "\<dots> = ?L ! i" using \<open>i < Suc fm_end\<close> by simp
    finally show ?thesis .
  qed
  with z l tk len show ?thesis by (simp add: split_convert)
qed

theorem frontmatter_lines_preserved_witness:
  "detect_frontmatter_boundaries (str ''+++\<newline>    k = 1\<newline>+++\<newline>\<newline>    code\<newline>'') = Some (0, 2) \<and>
   take 3 (split_nl (convert_to_fenced_blocks (str ''+++\<newline>    k = 1\<newline>+++\<newline>\<newline>    code\<newline>''))) =
     [str ''+++'', str ''    k = 1'', str ''+++''] \<and>
   convert_to_fenced_blocks (str ''+++\<newline>    k = 1\<newline>+++\<newline>\<newline>    code\<newline>'') =
     str ''+++\<newline>    k = 1\<newline>+++\<newline>\<newline>```\<newline>code\<newline>```\<newline>''"
proof -
  let ?d = "str ''+++\<newline>    k = 1\<newline>+++\<newline>\<newline>    code\<newline>''"
  have h: "detect_frontmatter_boundaries ?d = Some (0, 2)" by (simp add: eval_defs)
  have t: "take 3 (split_nl ?d) = [str ''+++'', str ''    k = 1'', str ''+++'']"
    by (simp add: eval_defs)
  have v: "convert_to_fenced_blocks ?d =
      str ''+++\<newline>    k = 1\<newline>+++\<newline>\<newline>```\<newline>code\<newline>```\<newline>''"
    by (simp add: eval_defs)
  have "take (Suc 2) (split_nl (convert_to_fenced_blocks ?d)) = take (Suc 2) (split_nl ?d)"
    by (rule frontmatter_lines_preserved
        [OF h, THEN conjunct2, THEN conjunct2, THEN conjunct2, THEN conjunct1])
  moreover have "Suc 2 = 3" by simp
  ultimately have "take 3 (split_nl (convert_to_fenced_blocks ?d)) = take 3 (split_nl ?d)"
    by (simp only:)
  with h t v show ?thesis by (simp only:)
qed

text \<open>
  Claim C4. A line that the scanner reaches while the fence state is true, that is a line
  after a fence line that set the state and up to the fence line that clears it, is in no
  span returned by \<open>detect_indented_code_blocks\<close>, and it stands unaltered in the output of
  \<open>convert_to_fenced_blocks\<close>, two places further down for every span that ends before it;
  whether the line starts with four spaces or with tabs plays no role.
\<close>

theorem fenced_lines_untouched:
  assumes "i < length (split_nl content)" "in_fenced_block (state_before content i)"
  shows "(\<forall>(a, b, c)\<in>set (detect_indented_code_blocks content). i < a \<or> b < i) \<and>
         split_nl (convert_to_fenced_blocks content) !
           (i + 2 * length (filter (\<lambda>blk. fst (snd blk) < i) (detect_indented_code_blocks content))) =
         split_nl content ! i"
proof -
  let ?bs = "detect_indented_code_blocks content"
  have out: "i < a \<or> b < i" if "(a, b, c) \<in> set ?bs" for a b c
    using detected_not_fenced_before [OF that, of i] assms(2) by (meson not_le_imp_less)
  then have "\<forall>(a, b, c)\<in>set ?bs. i < a \<or> b < i" by blast
  from this apply_blocks_outside [OF detected_sorted detected_fits this]
  show ?thesis by (simp add: split_convert)
qed

theorem fenced_lines_untouched_witness:
  "in_fenced_block (state_before (str ''    z\<newline>x\<newline>```\<newline>    a\<newline>```'') 3) \<and>
   detect_indented_code_blocks (str ''    z\<newline>x\<newline>```\<newline>    a\<newline>```'') = [(0, 0, str ''    z'')] \<and>
   split_nl (convert_to_fenced_blocks (str ''    z\<newline>x\<newline>```\<newline>    a\<newline>```'')) ! 5 = str ''    a'' \<and>
   convert_to_fenced_blocks (str ''    z\<newline>x\<newline>```\<newline>    a\<newline>```'') =
     str ''```\<newline>z\<newline>```\<newline>x\<newline>```\<newline>    a\<newline>```''"
proof -
  let ?d = "str ''    z\<newline>x\<newline>```\<newline>    a\<newline>```''"
  have h1: "3 < length (split_nl ?d)" by (simp add: eval_defs)
  have h2: "in_fenced_block (state_before ?d 3)" by (simp add: eval_defs state_before_def)
  have v: "detect_indented_code_blocks ?d = [(0, 0, str ''    z'')]" by (simp add: eval_defs)
  have l: "split_nl ?d ! 3 = str ''    a''" by (simp add: eval_defs)
  have c: "convert_to_fenced_blocks ?d = str ''```\<newline>z\<newline>```\<newline>x\<newline>```\<newline>    a\<newline>```''"
    by (simp add: eval_defs)
  have "split_nl (convert_to_fenced_blocks ?d) !
      (3 + 2 * length (filter (\<lambda>blk. fst (snd blk) < 3) (detect_indented_code_blocks ?d))) =
      split_nl ?d ! 3"
    by (rule fenced_lines_untouched [OF h1 h2, THEN conjunct2])
  then have "split_nl (convert_to_fenced_blocks ?d) ! 5 = str ''    a''"
    by (simp add: v l)
  with h2 v c show ?thesis by (simp only:)
qed

text \<open>
  Claim C10. With \<open>k\<close> spans detected the output has \<open>2 * k\<close> lines more than the input.
  The span number \<open>m\<close> (counted from 0), from line \<open>a\<close> to line \<open>b\<close>, is replaced by
  an opening fence at position \<open>a + 2 * m\<close>, the unindented lines of the span after it and
  a closing fence at position \<open>b + 2 * m + 2\<close>, which is two lines more than the span
  had. Every line outside the spans, the blank lines trimmed off the end of a span
  included, is carried over unchanged, two places further down for every span before it.
\<close>

theorem converted_line_count:
  "length (split_nl (convert_to_fenced_blocks content)) =
     length (split_nl content) + 2 * length (detect_indented_code_blocks content) \<and>
   (\<forall>m<length (detect_indented_code_blocks content).
      case detect_indented_code_blocks content ! m of (a, b, c) \<Rightarrow>
        split_nl (convert_to_fenced_blocks content) ! (a + 2 * m) = fence \<and>
        (\<forall>j. a \<le> j \<and> j \<le> b \<longrightarrow>
           split_nl (convert_to_fenced_blocks content) ! (j + 2 * m + 1) =
             unindent_line (split_nl content ! j)) \<and>
        split_nl (convert_to_fenced_blocks content) ! (b + 2 * m + 2) = fence) \<and>
   (\<forall>i<length (split_nl content).
      (\<forall>(a, b, c)\<in>set (detect_indented_code_blocks content). i < a \<or> b < i) \<longrightarrow>
      split_nl (convert_to_fenced_blocks content) !
        (i + 2 * length (filter (\<lambda>blk. fst (snd blk) < i) (detect_indented_code_blocks content))) =
      split_nl content ! i)"
proof -
  let ?L = "split_nl content"
  let ?bs = "detect_indented_code_blocks content"
  have len: "length (apply_blocks ?bs ?L) = length ?L + 2 * length ?bs"
    by (rule apply_blocks_length [OF detected_fits])
  have span: "case ?bs ! m of (a, b, c) \<Rightarrow>
        apply_blocks ?bs ?L ! (a + 2 * m) = fence \<and>
        (\<forall>j. a \<le> j \<and> j \<le> b \<longrightarrow>
           apply_blocks ?bs ?L ! (j + 2 * m + 1) = unindent_line (?L ! j)) \<and>
        apply_blocks ?bs ?L ! (b + 2 * m + 2) = fence" if "m < length ?bs" for m
  proof -
    obtain a b c where nth: "?bs ! m = (a, b, c)" by (cases "?bs ! m")
    from apply_blocks_span [OF detected_sorted detected_fits that nth] nth
    show ?thesis by simp
  qed
  have outside: "apply_blocks ?bs ?L ! (i + 2 * length (filter (\<lambda>blk. fst (snd blk) < i) ?bs)) =
      ?L ! i" if "\<forall>(a, b, c)\<in>set ?bs. i < a \<or> b < i" for i
    by (rule apply_blocks_outside [OF detected_sorted detected_fits that])
  from len span outside show ?thesis by (simp add: split_convert)
qed

theorem converted_line_count_witness:
  "detect_indented_code_blocks (str ''# T\<newline>    a\<newline>\<newline>        b\<newline>\<newline>t'') =
     [(1, 3, str ''    a\<newline>\<newline>        b'')] \<and>
   length (split_nl (str ''# T\<newline>    a\<newline>\<newline>        b\<newline>\<newline>t'')) = 6 \<and>
   length (split_nl (convert_to_fenced_blocks (str ''# T\<newline>    a\<newline>\<newline>        b\<newline>\<newline>t''))) = 8 \<and>
   split_nl (convert_to_fenced_blocks (str ''# T\<newline>    a\<newline>\<newline>        b\<newline>\<newline>t'')) ! 1 = fence \<and>
   split_nl (convert_to_fenced_blocks (str ''# T\<newline>    a\<newline>\<newline>        b\<newline>\<newline>t'')) ! 4 =
     unindent_line (str ''        b'') \<and>
   split_nl (convert_to_fenced_blocks (str ''# T\<newline>    a\<newline>\<newline>        b\<newline>\<newline>t'')) ! 7 = str ''t'' \<and>
   convert_to_fenced_blocks (str ''# T\<newline>    a\<newline>\<newline>        b\<newline>\<newline>t'') =
     str ''# T\<newline>```\<newline>a\<newline>\<newline>    b\<newline>```\<newline>\<newline>t''"
proof -
  let ?d = "str ''# T\<newline>    a\<newline>\<newline>        b\<newline>\<newline>t''"
  have v: "detect_indented_code_blocks ?d = [(1, 3, str ''    a\<newline>\<newline>        b'')]"
    by (simp add: eval_defs)
  have n: "length (split_nl ?d) = 6" by (simp add: eval_defs)
  have l3: "split_nl ?d ! 3 = str ''        b''" by (simp add: eval_defs)
  have l5: "split_nl ?d ! 5 = str ''t''" by (simp add: eval_defs)
  have c: "convert_to_fenced_blocks ?d = str ''# T\<newline>```\<newline>a\<newline>\<newline>    b\<newline>```\<newline>\<newline>t''"
    by (simp add: eval_defs)
  have a: "length (split_nl (convert_to_fenced_blocks ?d)) =
      length (split_nl ?d) + 2 * length (detect_indented_code_blocks ?d)"
    by (rule converted_line_count [of ?d, THEN conjunct1])
  have m: "0 < length (detect_indented_code_blocks ?d)" by (simp add: v)
  have b: "case detect_indented_code_blocks ?d ! 0 of (a, b, c) \<Rightarrow>
        split_nl (convert_to_fenced_blocks ?d) ! (a + 2 * 0) = fence \<and>
        (\<forall>j. a \<le> j \<and> j \<le> b \<longrightarrow>
           split_nl (convert_to_fenced_blocks ?d) ! (j + 2 * 0 + 1) =
             unindent_line (split_nl ?d ! j)) \<and>
        split_nl (convert_to_fenced_blocks ?d) ! (b + 2 * 0 + 2) = fence"
    by (rule converted_line_count [of ?d, THEN conjunct2, THEN conjunct1, rule_format, OF m])
  have i5: "5 < length (split_nl ?d)" by (simp add: n)
  have o5: "\<forall>(a, b, c)\<in>set (detect_indented_code_blocks ?d). 5 < a \<or> b < 5" by (simp add: v)
  have e: "split_nl (convert_to_fenced_blocks ?d) !
      (5 + 2 * length (filter (\<lambda>blk. fst (snd blk) < 5) (detect_indented_code_blocks ?d))) =
      split_nl ?d ! 5"
    by (rule converted_line_count [of ?d, THEN conjunct2, THEN conjunct2, THEN spec, THEN mp,
          OF i5, THEN mp, OF o5])
  from a have a': "length (split_nl (convert_to_fenced_blocks ?d)) = 8" by (simp add: v n)
  from b have f: "split_nl (convert_to_fenced_blocks ?d) ! 1 = fence" by (simp add: v)
  from b have "\<forall>j. 1 \<le> j \<and> j \<le> 3 \<longrightarrow>
      split_nl (convert_to_fenced_blocks ?d) ! (j + 2 * 0 + 1) = unindent_line (split_nl ?d ! j)"
    by (simp add: v)
  from this [THEN spec, of 3]
  have "split_nl (convert_to_fenced_blocks ?d) ! 4 = unindent_line (split_nl ?d ! 3)"
    by simp
  then have g: "split_nl (convert_to_fenced_blocks ?d) ! 4 = unindent_line (str ''        b'')"
    by (simp add: l3)
  from e have h: "split_nl (convert_to_fenced_blocks ?d) ! 7 = str ''t''" by (simp add: v l5)
  from v n a' f g h c show ?thesis by (simp only:)
qed

text \<open>
  Claim C1. Applying \<open>convert_to_fenced_blocks\<close> twice gives what applying it once gives,
  for every document: in the output of the first application
  \<open>detect_indented_code_blocks\<close> finds no span, since the blocks it fenced are not detected
  again as indented blocks, so the second application returns its input.
\<close>

theorem convert_idempotent:
  "convert_to_fenced_blocks (convert_to_fenced_blocks content) = convert_to_fenced_blocks content \<and>
   detect_indented_code_blocks (convert_to_fenced_blocks content) = []"
  using detect_convert convert_no_blocks by blast

theorem convert_idempotent_witness:
  "convert_to_fenced_blocks (str ''# T\<newline>    a\<newline>\<newline>        b\<newline>\<newline>t'') =
     str ''# T\<newline>```\<newline>a\<newline>\<newline>    b\<newline>```\<newline>\<newline>t'' \<and>
   convert_to_fenced_blocks (str ''# T\<newline>```\<newline>a\<newline>\<newline>    b\<newline>```\<newline>\<newline>t'') =
     str ''# T\<newline>```\<newline>a\<newline>\<newline>    b\<newline>```\<newline>\<newline>t''"
proof -
  let ?d = "str ''# T\<newline>    a\<newline>\<newline>        b\<newline>\<newline>t''"
  have c: "convert_to_fenced_blocks ?d = str ''# T\<newline>```\<newline>a\<newline>\<newline>    b\<newline>```\<newline>\<newline>t''"
    by (simp add: eval_defs)
  have "convert_to_fenced_blocks (convert_to_fenced_blocks ?d) = convert_to_fenced_blocks ?d"
    by (rule convert_idempotent [of ?d, THEN conjunct1])
  then have "convert_to_fenced_blocks (str ''# T\<newline>```\<newline>a\<newline>\<newline>    b\<newline>```\<newline>\<newline>t'') =
     str ''# T\<newline>```\<newline>a\<newline>\<newline>    b\<newline>```\<newline>\<newline>t''"
    by (simp only: c)
  with c show ?thesis by (simp only:)
qed

end
